theory Spec2Isabelle
  imports Complex_Main "HOL-Library.Log_Nat" "HOL-Library.Word"
begin

section \<open>Numeric model\<close>

text \<open>
  The simulation engine (backend.cpp) computes with C++ \<open>int\<close>, \<open>float\<close> and
  \<open>double\<close>.

  \<^item> An \<open>int\<close> is modelled by a mathematical integer. Signed overflow is undefined
    behaviour in C++, so the model describes the engine as long as every \<open>int\<close> stays
    inside the 32-bit range.
  \<^item> A finite \<open>float\<close> or \<open>double\<close> value is modelled by the rational number it
    denotes. Every arithmetic operation of the source is the exact operation followed by
    IEEE 754 rounding to nearest, ties to even, to 24 (binary32) or 53 (binary64)
    significant bits. Infinities, NaN, overflow and subnormal numbers are outside the
    model (the exponent range is unbounded here).
\<close>

type_synonym f32 = rat
type_synonym f64 = rat

definition pow2 :: "int \<Rightarrow> rat" where
  "pow2 e = (if 0 \<le> e then 2 ^ nat e else 1 / 2 ^ nat (- e))"

text \<open>\<open>ilog2 x\<close> is the binary exponent of a positive rational: \<open>2^e \<le> x < 2^(e+1)\<close>.\<close>

definition ilog2 :: "rat \<Rightarrow> int" where
  "ilog2 x = (case quotient_of x of (p, q) \<Rightarrow>
      let d = bitlen p - bitlen q in if pow2 d \<le> x then d else d - 1)"

text \<open>Round to the nearest integer, ties to the even one.\<close>

definition rne :: "rat \<Rightarrow> int" where
  "rne y = (let f = \<lfloor>y\<rfloor>; r = y - of_int f in
     if r < 1 / 2 then f else if 1 / 2 < r then f + 1 else if even f then f else f + 1)"

text \<open>Round to \<open>p\<close> significant bits.\<close>

definition rnd :: "nat \<Rightarrow> rat \<Rightarrow> rat" where
  "rnd p x = (if x = 0 then 0 else
     let u = pow2 (ilog2 \<bar>x\<bar> - (int p - 1)) in of_int (rne (x / u)) * u)"

definition f32 :: "rat \<Rightarrow> f32" where "f32 x = rnd 24 x"
definition f64 :: "rat \<Rightarrow> f64" where "f64 x = rnd 53 x"

definition fadd32 :: "f32 \<Rightarrow> f32 \<Rightarrow> f32" where "fadd32 a b = f32 (a + b)"
definition fsub32 :: "f32 \<Rightarrow> f32 \<Rightarrow> f32" where "fsub32 a b = f32 (a - b)"
definition fmul32 :: "f32 \<Rightarrow> f32 \<Rightarrow> f32" where "fmul32 a b = f32 (a * b)"
definition fdiv32 :: "f32 \<Rightarrow> f32 \<Rightarrow> f32" where "fdiv32 a b = f32 (a / b)"

definition fadd64 :: "f64 \<Rightarrow> f64 \<Rightarrow> f64" where "fadd64 a b = f64 (a + b)"
definition fsub64 :: "f64 \<Rightarrow> f64 \<Rightarrow> f64" where "fsub64 a b = f64 (a - b)"
definition fmul64 :: "f64 \<Rightarrow> f64 \<Rightarrow> f64" where "fmul64 a b = f64 (a * b)"

text \<open>\<open>float(n)\<close> for an \<open>int\<close>; \<open>double(n)\<close> is exact for every 32-bit \<open>int\<close>, and
  so is \<open>double(x)\<close> for a \<open>float\<close>.\<close>

definition float_of_int :: "int \<Rightarrow> f32" where "float_of_int n = f32 (of_int n)"
definition double_of_int :: "int \<Rightarrow> f64" where "double_of_int n = of_int n"

text \<open>\<open>(int)x\<close> truncates towards zero; \<open>std::round\<close> rounds half away from zero.\<close>

definition int_of_float :: "rat \<Rightarrow> int" where
  "int_of_float x = (if 0 \<le> x then \<lfloor>x\<rfloor> else \<lceil>x\<rceil>)"

definition round_away :: "rat \<Rightarrow> rat" where
  "round_away x = (if 0 \<le> x then of_int \<lfloor>x + 1 / 2\<rfloor> else of_int \<lceil>x - 1 / 2\<rceil>)"

text \<open>\<open>std::clamp(v, lo, hi)\<close>, for \<open>lo \<le> hi\<close>.\<close>

definition clamp :: "'a::linorder \<Rightarrow> 'a \<Rightarrow> 'a \<Rightarrow> 'a" where
  "clamp v lo hi = (if v < lo then lo else if hi < v then hi else v)"

definition Clamp01 :: "f32 \<Rightarrow> f32" where
  "Clamp01 x = (if x < 0 then 0 else if 1 < x then 1 else x)"

text \<open>
  The 32-bit \<open>int\<close>. The counters of the source are \<open>int\<close>; the model computes on
  unbounded integers and writes the 32-bit result out where a sum can leave the range:
  \<open>int32 x\<close> is the value of \<open>x\<close> wrapped around into \<open>[-2^31, 2^31)\<close>, which is what
  the two's-complement targets of the program compute for an addition that overflows
  (the C++ standard leaves that case undefined).
\<close>

definition int32 :: "int \<Rightarrow> int" where
  "int32 x = (x + 2147483648) mod 4294967296 - 2147483648"



section \<open>The random stream\<close>

text \<open>
  The engine draws every random number from one \<open>std::mt19937\<close> through the standard
  distributions. Both belong to the C++ library, not to the repository, and what the
  distributions return is implementation-defined. They are therefore a parameter of the
  model: a generator state of any type \<open>'g\<close> with the four operations the source uses.
  Each operation returns the drawn value and the next generator state.
\<close>

record 'g rng_ops =
  seed_rng :: "32 word \<Rightarrow> 'g"
  uniform_int :: "int \<Rightarrow> int \<Rightarrow> 'g \<Rightarrow> int \<times> 'g"
  uniform_real :: "f32 \<Rightarrow> f32 \<Rightarrow> 'g \<Rightarrow> f32 \<times> 'g"
  bernoulli :: "f32 \<Rightarrow> 'g \<Rightarrow> bool \<times> 'g"

definition RandInt :: "'g rng_ops \<Rightarrow> 'g \<Rightarrow> int \<Rightarrow> int \<Rightarrow> int \<times> 'g" where
  "RandInt R g lo hi = uniform_int R lo hi g"

definition RandFloat :: "'g rng_ops \<Rightarrow> 'g \<Rightarrow> f32 \<Rightarrow> f32 \<Rightarrow> f32 \<times> 'g" where
  "RandFloat R g lo hi = uniform_real R lo hi g"

definition RandBernoulli :: "'g rng_ops \<Rightarrow> 'g \<Rightarrow> f32 \<Rightarrow> bool \<times> 'g" where
  "RandBernoulli R g p = bernoulli R (Clamp01 p) g"

text \<open>What the C++ standard promises of the distributions: a drawn value lies between
  the bounds it was asked for.\<close>

definition rng_ok :: "'g rng_ops \<Rightarrow> bool" where
  "rng_ok R \<longleftrightarrow>
     (\<forall>lo hi g. lo \<le> hi \<longrightarrow> lo \<le> fst (uniform_int R lo hi g) \<and> fst (uniform_int R lo hi g) \<le> hi) \<and>
     (\<forall>lo hi g. lo \<le> hi \<longrightarrow> lo \<le> fst (uniform_real R lo hi g) \<and> fst (uniform_real R lo hi g) \<le> hi)"

text \<open>
  A generator for tests: it replays a recorded list of draws, forced into the requested
  bounds, and falls back to the lower bound (or to \<open>False\<close>) when the record is used up
  or holds a draw of another kind.
\<close>

datatype draw = DInt int | DFloat f32 | DBool bool

fun replay_int :: "int \<Rightarrow> int \<Rightarrow> draw list \<Rightarrow> int \<times> draw list" where
  "replay_int lo hi (DInt v # t) = (clamp v lo hi, t)"
| "replay_int lo hi (d # t) = (lo, t)"
| "replay_int lo hi [] = (lo, [])"

fun replay_real :: "f32 \<Rightarrow> f32 \<Rightarrow> draw list \<Rightarrow> f32 \<times> draw list" where
  "replay_real lo hi (DFloat v # t) = (clamp v lo hi, t)"
| "replay_real lo hi (d # t) = (lo, t)"
| "replay_real lo hi [] = (lo, [])"

fun replay_bernoulli :: "f32 \<Rightarrow> draw list \<Rightarrow> bool \<times> draw list" where
  "replay_bernoulli p (DBool b # t) = (if p \<le> 0 then False else if 1 \<le> p then True else b, t)"
| "replay_bernoulli p (d # t) = (1 \<le> p, t)"
| "replay_bernoulli p [] = (1 \<le> p, [])"

definition replay_rng :: "(32 word \<Rightarrow> draw list) \<Rightarrow> (draw list) rng_ops" where
  "replay_rng tape = \<lparr> seed_rng = tape, uniform_int = replay_int,
                       uniform_real = replay_real, bernoulli = replay_bernoulli \<rparr>"


section \<open>Data model\<close>

record ProductConfig =
  name :: string
  unitName :: string
  unitsPerPackage :: int
  capacityPackages :: int
  shelfLifeDays :: int
  discountBeforeDays :: int
  basePricePerUnit :: f32
  discountPercent :: f32
  reorderThreshold :: int
  reorderAmount :: int

record DayStats =
  revenue :: f64
  discountLoss :: f64
  writeOffLoss :: f64
  totalSoldUnits :: int
  totalWriteOffUnits :: int

text \<open>The fields \<open>N\<close>, \<open>M\<close>, \<open>K\<close> of \<open>SimConfig\<close> are \<open>cfgN\<close>, \<open>cfgM\<close>, \<open>cfgK\<close> here.\<close>

record SimConfig =
  cfgN :: int
  cfgM :: int
  cfgK :: int
  seed :: "32 word"
  orderProbability :: f32
  maxLinesPerOrder :: int
  minUnitsPerLine :: int
  maxUnitsPerLine :: int
  discountDemandBoost :: f32
  supplierLeadTimeMin :: int
  supplierLeadTimeMax :: int
  secondsPerDay :: f32

record OrderRow =
  row_shopId :: int
  row_productId :: int
  row_requestedUnits :: int
  row_chosenPackages :: int
  row_deliveredPackages :: int
  row_deliveredUnits :: int

datatype AnimType = SupplyTruck | ShipmentTruck | OrderPaper | WasteTruck

record Anim =
  anim_type :: AnimType
  t0 :: f32
  t1 :: f32
  anim_shopId :: int
  payload :: int

record Batch =
  packages :: int
  daysLeft :: int
  discounted :: bool
  unitPrice :: f32

record SupplierDelivery =
  sd_productId :: int
  sd_packages :: int
  daysUntilArrival :: int

record OrderLine =
  productId :: int
  requestedUnits :: int
  chosenPackages :: int
  deliveredPackages :: int
  deliveredUnits :: int

record Order =
  order_day :: int
  order_shopId :: int
  lines :: "OrderLine list"

record Shipment =
  ship_day :: int
  ship_shopId :: int
  items :: "(int \<times> int) list"

text \<open>The default member initialisers of the structs.\<close>

definition ProductConfig0 :: ProductConfig where
  "ProductConfig0 = \<lparr> name = ''Product'', unitName = ''pcs'', unitsPerPackage = 10,
     capacityPackages = 20, shelfLifeDays = 14, discountBeforeDays = 3,
     basePricePerUnit = 1, discountPercent = 25, reorderThreshold = 6, reorderAmount = 12 \<rparr>"

definition DayStats0 :: DayStats where
  "DayStats0 = \<lparr> revenue = 0, discountLoss = 0, writeOffLoss = 0,
     totalSoldUnits = 0, totalWriteOffUnits = 0 \<rparr>"

definition OrderLine0 :: OrderLine where
  "OrderLine0 = \<lparr> productId = - 1, requestedUnits = 0, chosenPackages = 0,
     deliveredPackages = 0, deliveredUnits = 0 \<rparr>"

definition Anim0 :: Anim where
  "Anim0 = \<lparr> anim_type = SupplyTruck, t0 = 0, t1 = 1, anim_shopId = - 1, payload = 0 \<rparr>"


section \<open>Configuration clamping\<close>

definition ClampConfig :: "SimConfig \<Rightarrow> SimConfig" where
  "ClampConfig c0 =
    (let c = c0\<lparr>cfgN := clamp (cfgN c0) 10 30\<rparr>;
         c = c\<lparr>cfgM := clamp (cfgM c) 3 9\<rparr>;
         c = c\<lparr>cfgK := clamp (cfgK c) 12 20\<rparr>;
         c = c\<lparr>orderProbability := clamp (orderProbability c) 0 1\<rparr>;
         c = c\<lparr>maxLinesPerOrder := clamp (maxLinesPerOrder c) 1 20\<rparr>;
         c = c\<lparr>minUnitsPerLine := max 1 (minUnitsPerLine c)\<rparr>;
         c = c\<lparr>maxUnitsPerLine := max (minUnitsPerLine c) (maxUnitsPerLine c)\<rparr>;
         c = c\<lparr>discountDemandBoost := clamp (discountDemandBoost c) 0 10\<rparr>;
         c = c\<lparr>supplierLeadTimeMin := clamp (supplierLeadTimeMin c) 1 30\<rparr>;
         c = c\<lparr>supplierLeadTimeMax := clamp (supplierLeadTimeMax c) (supplierLeadTimeMin c) 60\<rparr>;
         c = c\<lparr>secondsPerDay := clamp (secondsPerDay c) (1 / 4) 30\<rparr>
     in c)"

definition ClampProduct :: "ProductConfig \<Rightarrow> ProductConfig" where
  "ClampProduct p0 =
    (let p = p0\<lparr>unitsPerPackage := clamp (unitsPerPackage p0) 1 1000\<rparr>;
         p = p\<lparr>capacityPackages := clamp (capacityPackages p) 0 5000\<rparr>;
         p = p\<lparr>shelfLifeDays := clamp (shelfLifeDays p) 1 365\<rparr>;
         p = p\<lparr>discountBeforeDays := clamp (discountBeforeDays p) 0 (shelfLifeDays p)\<rparr>;
         p = p\<lparr>basePricePerUnit := max (f32 (1 / 100)) (basePricePerUnit p)\<rparr>;
         p = p\<lparr>discountPercent := clamp (discountPercent p) 0 95\<rparr>;
         p = p\<lparr>reorderThreshold := clamp (reorderThreshold p) 0 (capacityPackages p)\<rparr>;
         p = p\<lparr>reorderAmount := clamp (reorderAmount p) 0 (capacityPackages p)\<rparr>
     in p)"


section \<open>The warehouse\<close>

text \<open>
  \<open>struct Warehouse\<close> has the single member \<open>inv\<close> (here \<open>iv\<close>), a vector of one \<open>std::deque<Batch>\<close>
  per product. A deque is a list whose head is the front; the warehouse is the list of
  these queues. A product id is an \<open>int\<close>; every operation checks it against the size of
  \<open>inv\<close> as the source does.
\<close>

type_synonym Warehouse = "Batch list list"

definition Warehouse_new :: "int \<Rightarrow> Warehouse" where
  "Warehouse_new k = replicate (nat k) []"

definition pid_ok :: "int \<Rightarrow> Warehouse \<Rightarrow> bool" where
  "pid_ok pid iv \<longleftrightarrow> \<not> (pid < 0 \<or> pid \<ge> int (length iv))"

definition TotalPackages :: "Warehouse \<Rightarrow> int \<Rightarrow> int" where
  "TotalPackages iv pid =
     (if pid < 0 \<or> pid \<ge> int (length iv) then 0
      else foldl (\<lambda>s b. s + packages b) 0 (iv ! nat pid))"

definition HasDiscountStock :: "Warehouse \<Rightarrow> int \<Rightarrow> bool" where
  "HasDiscountStock iv pid =
     (if pid < 0 \<or> pid \<ge> int (length iv) then False
      else list_ex (\<lambda>b. packages b > 0 \<and> discounted b) (iv ! nat pid))"

definition DecrementShelfLife :: "Warehouse \<Rightarrow> Warehouse" where
  "DecrementShelfLife iv = map (map (\<lambda>b. b\<lparr>daysLeft := daysLeft b - 1\<rparr>)) iv"

text \<open>The \<open>while\<close> loop of \<open>WriteOffExpired\<close>: pop the front while it has expired.\<close>

fun WriteOffLoop :: "Batch list \<Rightarrow> int \<Rightarrow> Batch list \<times> int" where
  "WriteOffLoop [] w = ([], w)"
| "WriteOffLoop (b # dq) w =
     (if daysLeft b \<le> 0 then WriteOffLoop dq (w + packages b) else (b # dq, w))"

definition WriteOffExpired ::
  "Warehouse \<Rightarrow> int \<Rightarrow> ProductConfig \<Rightarrow> DayStats \<Rightarrow> int \<times> Warehouse \<times> DayStats" where
  "WriteOffExpired iv pid pc st =
     (if pid < 0 \<or> pid \<ge> int (length iv) then (0, iv, st)
      else case WriteOffLoop (iv ! nat pid) 0 of (dq, writeOffPackages) \<Rightarrow>
        let iv' = iv[nat pid := dq] in
        if writeOffPackages > 0 then
          let units = writeOffPackages * unitsPerPackage pc;
              st1 = st\<lparr>totalWriteOffUnits := totalWriteOffUnits st + units\<rparr>;
              st2 = st1\<lparr>writeOffLoss :=
                      fadd64 (writeOffLoss st1) (fmul64 (double_of_int units) (basePricePerUnit pc))\<rparr>
          in (writeOffPackages, iv', st2)
        else (writeOffPackages, iv', st))"

definition Receive :: "Warehouse \<Rightarrow> int \<Rightarrow> int \<Rightarrow> ProductConfig \<Rightarrow> Warehouse" where
  "Receive iv pid pk pc =
     (if pid < 0 \<or> pid \<ge> int (length iv) then iv
      else if pk \<le> 0 then iv
      else let b = \<lparr> packages = pk, daysLeft = shelfLifeDays pc, discounted = False,
                      unitPrice = basePricePerUnit pc \<rparr>
           in iv[nat pid := (iv ! nat pid) @ [b]])"

definition discountedPrice :: "ProductConfig \<Rightarrow> f32" where
  "discountedPrice pc =
     fmul32 (basePricePerUnit pc) (fsub32 1 (fdiv32 (discountPercent pc) 100))"

text \<open>The \<open>for\<close> loop of \<open>ApplyDiscountIfNeeded\<close>, with \<open>affectedPackages\<close> as accumulator.\<close>

fun DiscountLoop :: "ProductConfig \<Rightarrow> Batch list \<Rightarrow> int \<Rightarrow> Batch list \<times> int" where
  "DiscountLoop pc [] aff = ([], aff)"
| "DiscountLoop pc (b # dq) aff =
     (if \<not> discounted b \<and> daysLeft b > 0 \<and> daysLeft b \<le> discountBeforeDays pc then
        (case DiscountLoop pc dq (aff + packages b) of (dq', aff') \<Rightarrow>
           (b\<lparr>discounted := True, unitPrice := discountedPrice pc\<rparr> # dq', aff'))
      else
        (case DiscountLoop pc dq aff of (dq', aff') \<Rightarrow> (b # dq', aff')))"

definition ApplyDiscountIfNeeded :: "Warehouse \<Rightarrow> int \<Rightarrow> ProductConfig \<Rightarrow> int \<times> Warehouse" where
  "ApplyDiscountIfNeeded iv pid pc =
     (if pid < 0 \<or> pid \<ge> int (length iv) then (0, iv)
      else case DiscountLoop pc (iv ! nat pid) 0 of (dq, affectedPackages) \<Rightarrow>
        (affectedPackages, iv[nat pid := dq]))"

definition RepriceBatches :: "Warehouse \<Rightarrow> int \<Rightarrow> ProductConfig \<Rightarrow> Warehouse" where
  "RepriceBatches iv pid pc =
     (if pid < 0 \<or> pid \<ge> int (length iv) then iv
      else iv[nat pid := map (\<lambda>b. if discounted b then b\<lparr>unitPrice := discountedPrice pc\<rparr>
                                     else b\<lparr>unitPrice := basePricePerUnit pc\<rparr>) (iv ! nat pid)])"


text \<open>
  \<open>FulfillLine\<close>, lines 254 to 266: the side of the quotient chosen for a request of
  \<open>req\<close> units of a product packed by \<open>upp\<close>, and the generator after the tie coin.
\<close>

definition FulfillLine_nearest :: "'g rng_ops \<Rightarrow> 'g \<Rightarrow> int \<Rightarrow> int \<Rightarrow> int \<times> 'g" where
  "FulfillLine_nearest R g req upp =
    (let exact = fdiv32 (float_of_int req) (float_of_int upp);
         fl = \<lfloor>exact\<rfloor>;
         ce = \<lceil>exact\<rceil>
     in if fl = ce then (fl, g)
        else
          let errFl = \<bar>fsub32 exact (float_of_int fl)\<bar>;
              errCe = \<bar>fsub32 (float_of_int ce) exact\<bar>
          in if errFl < errCe then (fl, g)
             else if errCe < errFl then (ce, g)
             else (case RandBernoulli R g (1 / 2) of (b, g') \<Rightarrow> (if b then fl else ce, g')))"

text \<open>\<open>FulfillLine\<close>, lines 268 to 272: the perturbation by one package and the
  replacement of 0 by 1.\<close>

definition FulfillLine_jitter :: "'g rng_ops \<Rightarrow> 'g \<Rightarrow> int \<Rightarrow> int \<times> 'g" where
  "FulfillLine_jitter R g chosen0 =
    (case RandBernoulli R g (f32 (35 / 100)) of (jitter, g2) \<Rightarrow>
     case (if jitter then
             (case RandBernoulli R g2 (1 / 2) of (b, g') \<Rightarrow>
                (max 0 (chosen0 + (if b then - 1 else 1)), g'))
           else (chosen0, g2))
     of (chosen, g3) \<Rightarrow> (if chosen = 0 then 1 else chosen, g3))"

definition FulfillLine_chosen :: "'g rng_ops \<Rightarrow> 'g \<Rightarrow> int \<Rightarrow> int \<Rightarrow> int \<times> 'g" where
  "FulfillLine_chosen R g req upp =
    (case FulfillLine_nearest R g req upp of (chosen, g1) \<Rightarrow> FulfillLine_jitter R g1 chosen)"

text \<open>
  The quantisation policy in the words of the specification (section 4.2), with the
  division, the floor, the ceiling and the two errors computed exactly: steps 1 to 3,
  steps 4 and 5, and the whole. The specification does not say which outcome of a coin
  means which side; the source's choice is taken: the tie coin picks the floor when it
  is true, the direction coin subtracts when it is true.
\<close>

definition spec_nearest :: "'g rng_ops \<Rightarrow> 'g \<Rightarrow> int \<Rightarrow> int \<Rightarrow> int \<times> 'g" where
  "spec_nearest R g req upp =
    (let exact = (of_int req / of_int upp :: rat);
         fl = \<lfloor>exact\<rfloor>;
         ce = \<lceil>exact\<rceil>
     in if fl = ce then (fl, g)
        else if \<bar>exact - of_int fl\<bar> < \<bar>of_int ce - exact\<bar> then (fl, g)
        else if \<bar>of_int ce - exact\<bar> < \<bar>exact - of_int fl\<bar> then (ce, g)
        else (case RandBernoulli R g (1 / 2) of (b, g') \<Rightarrow> (if b then fl else ce, g')))"

definition spec_jitter :: "'g rng_ops \<Rightarrow> 'g \<Rightarrow> int \<Rightarrow> int \<times> 'g" where
  "spec_jitter R g chosen0 =
    (case RandBernoulli R g (f32 (35 / 100)) of (perturb, g2) \<Rightarrow>
     let (chosen, g3) =
           (if perturb then
              (case RandBernoulli R g2 (1 / 2) of (down, g') \<Rightarrow>
                 (max 0 (if down then chosen0 - 1 else chosen0 + 1), g'))
            else (chosen0, g2))
     in (if chosen = 0 then 1 else chosen, g3))"

definition spec_chosen :: "'g rng_ops \<Rightarrow> 'g \<Rightarrow> int \<Rightarrow> int \<Rightarrow> int \<times> 'g" where
  "spec_chosen R g req upp =
    (case spec_nearest R g req upp of (chosen, g1) \<Rightarrow> spec_jitter R g1 chosen)"

text \<open>\<open>FulfillLine\<close>, lines 283 to 299: the loop that drains \<open>remaining\<close> packages from
  the front of the queue.\<close>

function FulfillLine_drain ::
  "int \<Rightarrow> Batch list \<Rightarrow> ProductConfig \<Rightarrow> DayStats \<Rightarrow> Batch list \<times> DayStats" where
  "FulfillLine_drain remaining [] pc st = ([], st)"
| "FulfillLine_drain remaining (b # dq) pc st =
    (if remaining > 0 then
       let take = min remaining (packages b);
           b' = b\<lparr>packages := packages b - take\<rparr>;
           remaining' = remaining - take;
           units = take * unitsPerPackage pc;
           base = fmul64 (double_of_int units) (basePricePerUnit pc);
           actual = fmul64 (double_of_int units) (unitPrice b');
           st1 = st\<lparr>revenue := fadd64 (revenue st) actual\<rparr>;
           st2 = st1\<lparr>totalSoldUnits := totalSoldUnits st1 + units\<rparr>;
           st3 = (if discounted b'
                  then st2\<lparr>discountLoss := fadd64 (discountLoss st2) (fsub64 base actual)\<rparr>
                  else st2)
       in if packages b' = 0 then FulfillLine_drain remaining' dq pc st3
          else FulfillLine_drain remaining' (b' # dq) pc st3
     else (b # dq, st))"
  by pat_completeness auto
termination
  by (relation "measures [\<lambda>(r, dq, pc, st). length dq, \<lambda>(r, dq, pc, st). nat r]")
     (auto simp: min_def split: if_splits)

definition FulfillLine ::
  "Warehouse \<Rightarrow> OrderLine \<Rightarrow> ProductConfig \<Rightarrow> 'g rng_ops \<Rightarrow> 'g \<Rightarrow> DayStats
     \<Rightarrow> OrderLine \<times> Warehouse \<times> 'g \<times> DayStats" where
  "FulfillLine iv line pc R g st =
    (if requestedUnits line \<le> 0 then (line, iv, g, st)
     else if unitsPerPackage pc \<le> 0 then (line, iv, g, st)
     else
       case FulfillLine_chosen R g (requestedUnits line) (unitsPerPackage pc) of (chosen, g') \<Rightarrow>
       let line1 = line\<lparr>chosenPackages := chosen\<rparr>;
           available = TotalPackages iv (productId line1);
           give = min chosen available;
           line2 = line1\<lparr>deliveredPackages := give\<rparr>;
           line3 = line2\<lparr>deliveredUnits := give * unitsPerPackage pc\<rparr>
       in case FulfillLine_drain give (iv ! nat (productId line3)) pc st of (dq, st') \<Rightarrow>
            (line3, iv[nat (productId line3) := dq], g', st'))"


section \<open>The simulator\<close>

text \<open>
  A log line is a text assembled from a fixed (Russian) phrase and the values printed
  into it. It is modelled by the phrase, as a constructor, with those values; a sum of
  money printed by \<open>FmtMoney\<close> (fixed notation, two decimals) is the number of hundredths
  printed. Product and shop names are transliterated.
\<close>

datatype LogEntry =
    LogReset
  | LogSeparator
  | LogDayStart int
  | LogSupply string int
  | LogOverflow string int
  | LogWriteOff string int
  | LogDiscount string int int
  | LogShipments int
  | LogNoShipments
  | LogSupplierRequest string int int
  | LogDaySummary int int int int

definition FmtMoney :: "f64 \<Rightarrow> int" where
  "FmtMoney v = rne (v * 100)"

fun to_string_nat :: "nat \<Rightarrow> string" where
  "to_string_nat n =
     (if n < 10 then [char_of (48 + n)]
      else to_string_nat (n div 10) @ [char_of (48 + n mod 10)])"

definition to_string :: "int \<Rightarrow> string" where
  "to_string i = (if i < 0 then CHR ''-'' # to_string_nat (nat (- i)) else to_string_nat (nat i))"

text \<open>Integer division of C++ truncates towards zero.\<close>

definition tdiv :: "int \<Rightarrow> int \<Rightarrow> int" where
  "tdiv a b = sgn a * sgn b * (\<bar>a\<bar> div \<bar>b\<bar>)"

record 'g SimulatorImpl =
  cfg :: SimConfig
  rng :: 'g
  day :: int
  wh :: Warehouse
  products :: "ProductConfig list"
  shopNames :: "string list"
  pipeline :: "SupplierDelivery list"
  shipmentsByDay :: "int \<rightharpoonup> Shipment list"
  todaysOrders :: "Order list"
  todaysStats :: DayStats
  totalStats :: DayStats
  logv :: "LogEntry list"
  dailyAnims :: "Anim list"

definition PushLog :: "LogEntry \<Rightarrow> 'g SimulatorImpl \<Rightarrow> 'g SimulatorImpl" where
  "PushLog e s =
     (let l = logv s @ [e]
      in s\<lparr>logv := (if length l > 400 then drop (length l - 400) l else l)\<rparr>)"

definition IncomingPackages :: "'g SimulatorImpl \<Rightarrow> int \<Rightarrow> int" where
  "IncomingPackages s pid =
     foldl (\<lambda>a d. if sd_productId d = pid then a + sd_packages d else a) 0 (pipeline s)"

definition baseNames :: "string list" where
  "baseNames = [''Ris'', ''Makarony'', ''Muka'', ''Sakhar'', ''Sol'', ''Maslo'', ''Chai'', ''Kofe'',
     ''Tushonka'', ''Fasol'', ''Kukuruza'', ''Moloko'', ''Grechka'', ''Ovsyanka'',
     ''Pechenye'', ''Konservy rybnye'', ''Sok'', ''Voda'', ''Spetsii'', ''Shokolad'']"

text \<open>The body of the product loop of \<open>Reset\<close> (lines 369 to 385), for the index \<open>i\<close>.\<close>

definition Reset_product :: "'g rng_ops \<Rightarrow> nat \<Rightarrow> 'g SimulatorImpl \<Rightarrow> 'g SimulatorImpl" where
  "Reset_product R i s =
    (case RandInt R (rng s) 6 24 of (upp, g1) \<Rightarrow>
     case RandInt R g1 18 40 of (cap, g2) \<Rightarrow>
     case RandInt R g2 7 25 of (life, g3) \<Rightarrow>
     case RandFloat R g3 (f32 (8 / 10)) (f32 (55 / 10)) of (price, g4) \<Rightarrow>
     let pc = ClampProduct
           \<lparr> name = (if i < length baseNames then baseNames ! i
                      else ''Tovar '' @ to_string (int i + 1)),
             unitName = ''ed.'',
             unitsPerPackage = upp,
             capacityPackages = cap,
             shelfLifeDays = life,
             discountBeforeDays = min 5 (max 2 (tdiv life 5)),
             basePricePerUnit = price,
             discountPercent = 25,
             reorderThreshold = max 3 (tdiv cap 5),
             reorderAmount = max 4 (tdiv cap 2) \<rparr>
     in
     case RandFloat R g4 (f32 (3 / 10)) (f32 (7 / 10)) of (f, g5) \<Rightarrow>
     let initP = int_of_float (round_away (fmul32 (float_of_int (capacityPackages pc)) f))
     in s\<lparr> rng := g5,
           products := (products s)[i := pc],
           wh := Receive (wh s) (int i) initP pc \<rparr>)"

text \<open>\<open>Reset\<close>, lines 343 to 367: everything before the product loop.\<close>

definition Reset_init :: "'g rng_ops \<Rightarrow> SimConfig \<Rightarrow> 'g SimulatorImpl \<Rightarrow> 'g SimulatorImpl" where
  "Reset_init R c s0 =
    (let s = s0\<lparr>cfg := ClampConfig c\<rparr>;
         s = s\<lparr>rng := seed_rng R (seed (cfg s))\<rparr>;
         s = s\<lparr>day := 0\<rparr>;
         s = s\<lparr>wh := Warehouse_new (cfgK (cfg s))\<rparr>;
         s = s\<lparr>products := replicate (nat (cfgK (cfg s))) ProductConfig0\<rparr>;
         s = s\<lparr>pipeline := []\<rparr>;
         s = s\<lparr>shipmentsByDay := Map.empty\<rparr>;
         s = s\<lparr>todaysOrders := []\<rparr>;
         s = s\<lparr>todaysStats := DayStats0\<rparr>;
         s = s\<lparr>totalStats := DayStats0\<rparr>;
         s = s\<lparr>logv := []\<rparr>;
         s = s\<lparr>dailyAnims := []\<rparr>;
         s = s\<lparr>shopNames := map (\<lambda>i. ''Tochka '' @ to_string (int i + 1)) [0..<nat (cfgM (cfg s))]\<rparr>
     in s)"

text \<open>The state of \<open>Reset\<close> after the first \<open>n\<close> passes of the product loop, each of which
  ends with the \<open>Receive\<close> of the initial stock.\<close>

definition Reset_stocking ::
  "'g rng_ops \<Rightarrow> SimConfig \<Rightarrow> 'g SimulatorImpl \<Rightarrow> nat \<Rightarrow> 'g SimulatorImpl" where
  "Reset_stocking R c s0 n = fold (Reset_product R) [0..<n] (Reset_init R c s0)"

definition Reset :: "'g rng_ops \<Rightarrow> SimConfig \<Rightarrow> 'g SimulatorImpl \<Rightarrow> 'g SimulatorImpl" where
  "Reset R c s0 =
    (let s = Reset_init R c s0;
         s = fold (Reset_product R) [0..<nat (cfgK (cfg s))] s
     in PushLog LogReset s)"

definition ClampAllProducts :: "'g SimulatorImpl \<Rightarrow> 'g SimulatorImpl" where
  "ClampAllProducts s0 =
     fold (\<lambda>pid s.
            let ps = (products s)[pid := ClampProduct (products s ! pid)]
            in s\<lparr>products := ps, wh := RepriceBatches (wh s) (int pid) (ps ! pid)\<rparr>)
          [0..<length (products s0)] s0"


text \<open>\<open>PickDistinctProductsWeighted\<close>: the weight of a product, the scan of the
  roulette wheel (lines 422 to 426) and the loop over the picks.\<close>

definition pick_weight :: "'g SimulatorImpl \<Rightarrow> int \<Rightarrow> f32" where
  "pick_weight s pid =
     (if HasDiscountStock (wh s) pid
      then fadd32 1 (fmul32 (fdiv32 (discountPercent (products s ! nat pid)) 100)
                            (discountDemandBoost (cfg s)))
      else 1)"

fun pick_scan :: "f32 \<Rightarrow> f32 list \<Rightarrow> int \<Rightarrow> int" where
  "pick_scan r [] idx = idx"
| "pick_scan r (x # ws) idx =
     (let r' = fsub32 r x in if r' \<le> 0 then idx else pick_scan r' ws (idx + 1))"

fun pick_loop ::
  "'g rng_ops \<Rightarrow> 'g SimulatorImpl \<Rightarrow> nat \<Rightarrow> int list \<Rightarrow> int list \<Rightarrow> 'g \<Rightarrow> int list \<times> 'g" where
  "pick_loop R s 0 remaining chosen g = (chosen, g)"
| "pick_loop R s (Suc n) remaining chosen g =
     (let w = map (pick_weight s) remaining;
          sum = foldl fadd32 0 w
      in if sum \<le> f32 (1 / 10000) then (chosen, g)
         else case RandFloat R g 0 sum of (r, g') \<Rightarrow>
           let idx = pick_scan r w 0;
               idx = nat (clamp idx 0 (int (length remaining) - 1))
           in pick_loop R s n (take idx remaining @ drop (Suc idx) remaining)
                (chosen @ [remaining ! idx]) g')"

definition PickDistinctProductsWeighted ::
  "'g rng_ops \<Rightarrow> int \<Rightarrow> 'g SimulatorImpl \<Rightarrow> int list \<times> 'g SimulatorImpl" where
  "PickDistinctProductsWeighted R count s =
     (let count = min count (cfgK (cfg s));
          remaining = map int [0..<nat (cfgK (cfg s))]
      in case pick_loop R s (nat count) remaining [] (rng s) of (chosen, g) \<Rightarrow>
           (chosen, s\<lparr>rng := g\<rparr>))"

definition CreateSupplierRequestIfNeeded ::
  "'g rng_ops \<Rightarrow> int \<Rightarrow> 'g SimulatorImpl \<Rightarrow> 'g SimulatorImpl" where
  "CreateSupplierRequestIfNeeded R pid s =
    (let pc = products s ! nat pid;
         cur = TotalPackages (wh s) pid;
         incoming = IncomingPackages s pid
     in if cur + incoming < reorderThreshold pc then
          let freeCap = capacityPackages pc - (cur + incoming);
              want = min (reorderAmount pc) (max 0 freeCap)
          in if want > 0 then
               case RandInt R (rng s) (supplierLeadTimeMin (cfg s)) (supplierLeadTimeMax (cfg s))
               of (lead, g) \<Rightarrow>
                 let d = \<lparr> sd_productId = pid, sd_packages = want, daysUntilArrival = lead \<rparr>;
                     s1 = s\<lparr>rng := g, pipeline := pipeline s @ [d]\<rparr>
                 in PushLog (LogSupplierRequest (name pc) want (daysUntilArrival d)) s1
             else s
        else s)"

text \<open>\<open>BuildDailyAnimations\<close>: the four groups of animations, in the order of the
  source (lines 462 to 470, 472 to 480, 482 to 491, 493 to 510).\<close>

definition BuildDailyAnimations_supply ::
  "(int \<times> int) list \<Rightarrow> 'g SimulatorImpl \<Rightarrow> 'g SimulatorImpl" where
  "BuildDailyAnimations_supply supplierArrivals s0 =
     fold (\<lambda>a s.
            s\<lparr>dailyAnims := dailyAnims s @
                [Anim0\<lparr>anim_type := SupplyTruck, t0 := f32 (2 / 100), t1 := f32 (22 / 100),
                       payload := snd a\<rparr>]\<rparr>)
          supplierArrivals s0"

definition BuildDailyAnimations_orders ::
  "'g rng_ops \<Rightarrow> Order list \<Rightarrow> 'g SimulatorImpl \<Rightarrow> 'g SimulatorImpl" where
  "BuildDailyAnimations_orders R orders s0 =
     fold (\<lambda>ord s.
            case RandFloat R (rng s) 0 (f32 (8 / 100)) of (x0, g1) \<Rightarrow>
            case RandFloat R g1 0 (f32 (6 / 100)) of (x1, g2) \<Rightarrow>
            s\<lparr>rng := g2,
              dailyAnims := dailyAnims s @
                [Anim0\<lparr>anim_type := OrderPaper, anim_shopId := order_shopId ord,
                       t0 := fadd32 (f32 (10 / 100)) x0, t1 := fadd32 (f32 (42 / 100)) x1,
                       payload := int (length (lines ord))\<rparr>]\<rparr>)
          orders s0"

definition BuildDailyAnimations_waste ::
  "(int \<times> int) list \<Rightarrow> 'g SimulatorImpl \<Rightarrow> 'g SimulatorImpl" where
  "BuildDailyAnimations_waste writeOffByProduct s =
    (let totalWriteOffPackages = foldl (\<lambda>a p. a + snd p) 0 writeOffByProduct
     in if totalWriteOffPackages > 0
        then s\<lparr>dailyAnims := dailyAnims s @
               [Anim0\<lparr>anim_type := WasteTruck, t0 := f32 (30 / 100), t1 := f32 (55 / 100),
                      payload := totalWriteOffPackages\<rparr>]\<rparr>
        else s)"

definition BuildDailyAnimations_shipments ::
  "Shipment list \<Rightarrow> 'g SimulatorImpl \<Rightarrow> 'g SimulatorImpl" where
  "BuildDailyAnimations_shipments shipmentsDueToday s0 =
    (let base0 = f32 (58 / 100);
         base1 = f32 (98 / 100)
     in snd (fold (\<lambda>sh (idx, s).
               let totalPk = foldl (\<lambda>a it. a + snd it) 0 (items sh);
                   span = fsub32 base1 base0;
                   per = fdiv32 span (float_of_int (max 1 (int (length shipmentsDueToday))));
                   a0 = fadd32 (fadd32 base0 (fmul32 per (float_of_int idx))) (f32 (1 / 100));
                   a1 = fadd32 a0 (min (f32 (20 / 100)) (fmul32 per (f32 (90 / 100))))
               in (idx + 1,
                   s\<lparr>dailyAnims := dailyAnims s @
                      [Anim0\<lparr>anim_type := ShipmentTruck, anim_shopId := ship_shopId sh,
                             payload := totalPk, t0 := a0, t1 := a1\<rparr>]\<rparr>))
             shipmentsDueToday (0, s0)))"

definition BuildDailyAnimations ::
  "'g rng_ops \<Rightarrow> (int \<times> int) list \<Rightarrow> Order list \<Rightarrow> Shipment list \<Rightarrow> (int \<times> int) list
     \<Rightarrow> 'g SimulatorImpl \<Rightarrow> 'g SimulatorImpl" where
  "BuildDailyAnimations R supplierArrivals orders shipmentsDueToday writeOffByProduct s0 =
     BuildDailyAnimations_shipments shipmentsDueToday
       (BuildDailyAnimations_waste writeOffByProduct
         (BuildDailyAnimations_orders R orders
           (BuildDailyAnimations_supply supplierArrivals (s0\<lparr>dailyAnims := []\<rparr>))))"


subsection \<open>One simulated day\<close>

text \<open>Lines 526 to 537: every pending delivery comes one day closer; those due arrive.\<close>

definition AdvanceDay_pipeline ::
  "'g SimulatorImpl \<Rightarrow> (int \<times> int) list \<times> 'g SimulatorImpl" where
  "AdvanceDay_pipeline s =
    (let pl = map (\<lambda>d. d\<lparr>daysUntilArrival := daysUntilArrival d - 1\<rparr>) (pipeline s);
         arrivals = map (\<lambda>d. (sd_productId d, sd_packages d))
                        (filter (\<lambda>d. daysUntilArrival d \<le> 0) pl);
         keep = filter (\<lambda>d. \<not> daysUntilArrival d \<le> 0) pl
     in (arrivals, s\<lparr>pipeline := keep\<rparr>))"

text \<open>Lines 540 to 550: the receipt of one arrival, capped by the free capacity.\<close>

definition AdvanceDay_receive :: "int \<times> int \<Rightarrow> 'g SimulatorImpl \<Rightarrow> 'g SimulatorImpl" where
  "AdvanceDay_receive a s =
    (case a of (pid, pk) \<Rightarrow>
     let cur = TotalPackages (wh s) pid;
         freeCap = capacityPackages (products s ! nat pid) - cur;
         accepted = max 0 (min pk freeCap);
         s1 = (if accepted > 0
               then PushLog (LogSupply (name (products s ! nat pid)) accepted)
                      (s\<lparr>wh := Receive (wh s) pid accepted (products s ! nat pid)\<rparr>)
               else s);
         s2 = (if accepted < pk
               then PushLog (LogOverflow (name (products s1 ! nat pid)) (pk - accepted)) s1
               else s1)
     in s2)"

text \<open>Lines 556 to 561: the body of the write-off loop, for the product \<open>pid\<close>.\<close>

definition AdvanceDay_writeOff ::
  "nat \<Rightarrow> (int \<times> int) list \<times> 'g SimulatorImpl \<Rightarrow> (int \<times> int) list \<times> 'g SimulatorImpl" where
  "AdvanceDay_writeOff pid acc =
    (case acc of (writeOffByProduct, s) \<Rightarrow>
     case WriteOffExpired (wh s) (int pid) (products s ! pid) (todaysStats s) of (pk, iv, st) \<Rightarrow>
     let s1 = s\<lparr>wh := iv, todaysStats := st\<rparr>
     in if pk > 0
        then (writeOffByProduct @ [(int pid, pk)],
              PushLog (LogWriteOff (name (products s1 ! pid)) pk) s1)
        else (writeOffByProduct, s1))"

text \<open>Lines 564 to 570: the body of the discount loop.\<close>

definition AdvanceDay_discount :: "nat \<Rightarrow> 'g SimulatorImpl \<Rightarrow> 'g SimulatorImpl" where
  "AdvanceDay_discount pid s =
    (case ApplyDiscountIfNeeded (wh s) (int pid) (products s ! pid) of (aff, iv) \<Rightarrow>
     let s1 = s\<lparr>wh := iv\<rparr>
     in if aff > 0
        then PushLog (LogDiscount (name (products s1 ! pid))
                        (int_of_float (discountPercent (products s1 ! pid))) aff) s1
        else s1)"

text \<open>Lines 576 to 594: the body of the loop over the shops, for the shop \<open>shop\<close>.\<close>

definition AdvanceDay_order :: "'g rng_ops \<Rightarrow> nat \<Rightarrow> 'g SimulatorImpl \<Rightarrow> 'g SimulatorImpl" where
  "AdvanceDay_order R shop s =
    (case RandBernoulli R (rng s) (orderProbability (cfg s)) of (b, g1) \<Rightarrow>
     if \<not> b then s\<lparr>rng := g1\<rparr>
     else
       let maxLines = min (maxLinesPerOrder (cfg s)) (cfgK (cfg s)) in
       case RandInt R g1 1 (max 1 maxLines) of (nlines, g2) \<Rightarrow>
       case PickDistinctProductsWeighted R nlines (s\<lparr>rng := g2\<rparr>) of (picked, s1) \<Rightarrow>
       case fold (\<lambda>pid (ls, g).
                    case RandInt R g (minUnitsPerLine (cfg s1)) (maxUnitsPerLine (cfg s1))
                    of (u, g') \<Rightarrow> (ls @ [OrderLine0\<lparr>productId := pid, requestedUnits := u\<rparr>], g'))
                 picked ([], rng s1)
       of (ls, g3) \<Rightarrow>
         s1\<lparr>rng := g3,
            todaysOrders := todaysOrders s1 @
              [\<lparr> order_day = day s1, order_shopId = int shop, lines = ls \<rparr>]\<rparr>)"

text \<open>Lines 602 to 606: one line of an order is fulfilled in place and, when something
  was delivered, added to the shipment.\<close>

definition AdvanceDay_fulfillLine ::
  "'g rng_ops \<Rightarrow> OrderLine
     \<Rightarrow> OrderLine list \<times> (int \<times> int) list \<times> 'g SimulatorImpl
     \<Rightarrow> OrderLine list \<times> (int \<times> int) list \<times> 'g SimulatorImpl" where
  "AdvanceDay_fulfillLine R oline acc =
    (case acc of (sofar, shItems, s) \<Rightarrow>
     case FulfillLine (wh s) oline (products s ! nat (productId oline)) R (rng s) (todaysStats s)
     of (oline', iv, g, st) \<Rightarrow>
       (sofar @ [oline'],
        (if deliveredPackages oline' > 0 then shItems @ [(productId oline', deliveredPackages oline')]
         else shItems),
        s\<lparr>wh := iv, rng := g, todaysStats := st\<rparr>))"

text \<open>Lines 597 to 609: the body of the loop over today's orders.\<close>

definition AdvanceDay_fulfillOrder ::
  "'g rng_ops \<Rightarrow> Order
     \<Rightarrow> Order list \<times> Shipment list \<times> 'g SimulatorImpl
     \<Rightarrow> Order list \<times> Shipment list \<times> 'g SimulatorImpl" where
  "AdvanceDay_fulfillOrder R ord acc =
    (case acc of (sofar, shipmentsTomorrow, s) \<Rightarrow>
     case fold (AdvanceDay_fulfillLine R) (lines ord) ([], [], s) of (ls, shItems, s1) \<Rightarrow>
     let sh = \<lparr> ship_day = day s1 + 1, ship_shopId = order_shopId ord, items = shItems \<rparr>
     in (sofar @ [ord\<lparr>lines := ls\<rparr>],
         (if shItems \<noteq> [] then shipmentsTomorrow @ [sh] else shipmentsTomorrow),
         s1))"

text \<open>Lines 621 to 625: the statistics of the day are added to the cumulative ones,
  the \<open>double\<close> members in \<open>double\<close> arithmetic, the \<open>int\<close> members in 32-bit arithmetic.\<close>

definition add_totals :: "DayStats \<Rightarrow> DayStats \<Rightarrow> DayStats" where
  "add_totals tot tod =
    \<lparr> revenue = fadd64 (revenue tot) (revenue tod),
      discountLoss = fadd64 (discountLoss tot) (discountLoss tod),
      writeOffLoss = fadd64 (writeOffLoss tot) (writeOffLoss tod),
      totalSoldUnits = int32 (totalSoldUnits tot + totalSoldUnits tod),
      totalWriteOffUnits = int32 (totalWriteOffUnits tot + totalWriteOffUnits tod) \<rparr>"

text \<open>
  The part of \<open>AdvanceDay\<close> behind the guard of line 514, in the order of the source:
  lines 517 to 524, 526 to 551, 553 to 570, 572 to 574, 576 to 594, 596 to 617, 619 and
  621 to 629, then \<open>BuildDailyAnimations\<close>.
\<close>

definition AdvanceDay_begin :: "'g SimulatorImpl \<Rightarrow> 'g SimulatorImpl" where
  "AdvanceDay_begin s0 =
    (let s = ClampAllProducts s0;
         s = s\<lparr>day := day s + 1\<rparr>;
         s = s\<lparr>todaysOrders := []\<rparr>;
         s = s\<lparr>todaysStats := DayStats0\<rparr>;
         s = PushLog LogSeparator s
     in PushLog (LogDayStart (day s)) s)"

definition AdvanceDay_supply :: "'g SimulatorImpl \<Rightarrow> (int \<times> int) list \<times> 'g SimulatorImpl" where
  "AdvanceDay_supply s =
    (case AdvanceDay_pipeline s of (arrivals, s1) \<Rightarrow>
       (arrivals, fold AdvanceDay_receive arrivals s1))"

definition AdvanceDay_shelf :: "'g SimulatorImpl \<Rightarrow> (int \<times> int) list \<times> 'g SimulatorImpl" where
  "AdvanceDay_shelf s =
    (let s1 = s\<lparr>wh := DecrementShelfLife (wh s)\<rparr> in
     case fold AdvanceDay_writeOff [0..<nat (cfgK (cfg s1))] ([], s1)
     of (writeOffByProduct, s2) \<Rightarrow>
       (writeOffByProduct, fold AdvanceDay_discount [0..<nat (cfgK (cfg s2))] s2))"

definition AdvanceDay_shipmentsDue :: "'g SimulatorImpl \<Rightarrow> Shipment list" where
  "AdvanceDay_shipmentsDue s = (case shipmentsByDay s (day s) of None \<Rightarrow> [] | Some v \<Rightarrow> v)"

definition AdvanceDay_orders :: "'g rng_ops \<Rightarrow> 'g SimulatorImpl \<Rightarrow> 'g SimulatorImpl" where
  "AdvanceDay_orders R s = fold (AdvanceDay_order R) [0..<nat (cfgM (cfg s))] s"

definition AdvanceDay_fulfill :: "'g rng_ops \<Rightarrow> 'g SimulatorImpl \<Rightarrow> 'g SimulatorImpl" where
  "AdvanceDay_fulfill R s =
    (case fold (AdvanceDay_fulfillOrder R) (todaysOrders s) ([], [], s)
     of (orders, shipmentsTomorrow, s1) \<Rightarrow>
       let s2 = s1\<lparr>todaysOrders := orders\<rparr> in
       if shipmentsTomorrow \<noteq> []
       then PushLog (LogShipments (int (length shipmentsTomorrow)))
              (s2\<lparr>shipmentsByDay := (shipmentsByDay s2)(day s2 + 1 \<mapsto>
                   (case shipmentsByDay s2 (day s2 + 1) of None \<Rightarrow> [] | Some v \<Rightarrow> v)
                     @ shipmentsTomorrow)\<rparr>)
       else PushLog LogNoShipments s2)"

definition AdvanceDay_reorder :: "'g rng_ops \<Rightarrow> 'g SimulatorImpl \<Rightarrow> 'g SimulatorImpl" where
  "AdvanceDay_reorder R s =
     fold (\<lambda>pid. CreateSupplierRequestIfNeeded R (int pid)) [0..<nat (cfgK (cfg s))] s"

definition AdvanceDay_totals :: "'g SimulatorImpl \<Rightarrow> 'g SimulatorImpl" where
  "AdvanceDay_totals s =
    (let s1 = s\<lparr>totalStats := add_totals (totalStats s) (todaysStats s)\<rparr>
     in PushLog (LogDaySummary (day s1) (FmtMoney (revenue (todaysStats s1)))
                   (FmtMoney (discountLoss (todaysStats s1)))
                   (FmtMoney (writeOffLoss (todaysStats s1)))) s1)"

definition AdvanceDay_body :: "'g rng_ops \<Rightarrow> 'g SimulatorImpl \<Rightarrow> 'g SimulatorImpl" where
  "AdvanceDay_body R s0 =
    (let s1 = AdvanceDay_begin s0 in
     case AdvanceDay_supply s1 of (arrivals, s2) \<Rightarrow>
     case AdvanceDay_shelf s2 of (writeOffByProduct, s3) \<Rightarrow>
     let shipmentsDueToday = AdvanceDay_shipmentsDue s3;
         s4 = AdvanceDay_orders R s3;
         s5 = AdvanceDay_fulfill R s4;
         s6 = AdvanceDay_reorder R s5;
         s7 = AdvanceDay_totals s6
     in BuildDailyAnimations R arrivals (todaysOrders s7) shipmentsDueToday writeOffByProduct s7)"

definition AdvanceDay :: "'g rng_ops \<Rightarrow> 'g SimulatorImpl \<Rightarrow> 'g SimulatorImpl" where
  "AdvanceDay R s = (if day s \<ge> cfgN (cfg s) then s else AdvanceDay_body R s)"


subsection \<open>The handle and its interface\<close>

text \<open>
  A \<open>SimulatorHandle*\<close> is either null or points to a simulator: an \<open>option\<close>. The
  free function \<open>AdvanceDay(h)\<close> of the interface is \<open>api_AdvanceDay\<close> here.
\<close>

text \<open>The constructor of \<open>SimulatorImpl\<close>: the member initialisers, then \<open>Reset(c)\<close>.\<close>

definition SimulatorImpl_new :: "'g rng_ops \<Rightarrow> SimConfig \<Rightarrow> 'g SimulatorImpl" where
  "SimulatorImpl_new R c =
     Reset R c \<lparr> cfg = c, rng = seed_rng R (seed c), day = 0, wh = Warehouse_new (cfgK c),
                 products = [], shopNames = [], pipeline = [], shipmentsByDay = Map.empty,
                 todaysOrders = [], todaysStats = DayStats0, totalStats = DayStats0,
                 logv = [], dailyAnims = [] \<rparr>"

definition CreateSimulator :: "'g rng_ops \<Rightarrow> SimConfig \<Rightarrow> 'g SimulatorImpl option" where
  "CreateSimulator R c = Some (SimulatorImpl_new R (ClampConfig c))"

definition ResetSimulator ::
  "'g rng_ops \<Rightarrow> 'g SimulatorImpl option \<Rightarrow> SimConfig \<Rightarrow> 'g SimulatorImpl option" where
  "ResetSimulator R h c =
     (case h of None \<Rightarrow> None | Some s \<Rightarrow> Some (Reset R (ClampConfig c) s))"

definition api_AdvanceDay :: "'g rng_ops \<Rightarrow> 'g SimulatorImpl option \<Rightarrow> 'g SimulatorImpl option" where
  "api_AdvanceDay R h = (case h of None \<Rightarrow> None | Some s \<Rightarrow> Some (AdvanceDay R s))"

definition GetDay :: "'g SimulatorImpl option \<Rightarrow> int" where
  "GetDay h = (case h of None \<Rightarrow> 0 | Some s \<Rightarrow> day s)"

definition SetRuntimeTuning ::
  "'g SimulatorImpl option \<Rightarrow> f32 \<Rightarrow> int \<Rightarrow> int \<Rightarrow> int \<Rightarrow> f32 \<Rightarrow> f32 \<Rightarrow> 'g SimulatorImpl option" where
  "SetRuntimeTuning h op mlpo minu maxu ddb spd =
     (case h of None \<Rightarrow> None
      | Some s \<Rightarrow> Some (s\<lparr>cfg := ClampConfig ((cfg s)\<lparr>orderProbability := op,
           maxLinesPerOrder := mlpo, minUnitsPerLine := minu, maxUnitsPerLine := maxu,
           discountDemandBoost := ddb, secondsPerDay := spd\<rparr>)\<rparr>))"

definition GetTodaysStats :: "'g SimulatorImpl option \<Rightarrow> DayStats" where
  "GetTodaysStats h = (case h of None \<Rightarrow> DayStats0 | Some s \<Rightarrow> todaysStats s)"


definition SetProductConfigs ::
  "'g SimulatorImpl option \<Rightarrow> ProductConfig list \<Rightarrow> 'g SimulatorImpl option" where
  "SetProductConfigs h ins =
     (case h of None \<Rightarrow> None
      | Some s \<Rightarrow>
          if int (length ins) \<noteq> cfgK (cfg s) then Some s
          else Some (ClampAllProducts (s\<lparr>products := ins\<rparr>)))"

definition GetTodaysOrderRows :: "'g SimulatorImpl option \<Rightarrow> OrderRow list" where
  "GetTodaysOrderRows h =
     (case h of None \<Rightarrow> []
      | Some s \<Rightarrow>
          concat (map (\<lambda>ord. map (\<lambda>oline.
              \<lparr> row_shopId = order_shopId ord, row_productId = productId oline,
                row_requestedUnits = requestedUnits oline, row_chosenPackages = chosenPackages oline,
                row_deliveredPackages = deliveredPackages oline,
                row_deliveredUnits = deliveredUnits oline \<rparr>) (lines ord)) (todaysOrders s)))"

definition GetLog :: "'g SimulatorImpl option \<Rightarrow> int \<Rightarrow> LogEntry list" where
  "GetLog h maxLines0 =
     (case h of None \<Rightarrow> []
      | Some s \<Rightarrow>
          let maxLines = max 1 maxLines0;
              start = (if int (length (logv s)) > maxLines then int (length (logv s)) - maxLines
                       else 0)
          in drop (nat start) (logv s))"


subsection \<open>Runs of the interface\<close>

text \<open>
  A caller drives a simulator through a sequence of calls of the interface. A reachable
  state is the state after such a sequence on a created simulator. Beside the handle, a
  run records the statistics of every day simulated since the last reset: the value of
  \<open>GetTodaysStats\<close> after each call of \<open>AdvanceDay\<close> that simulated a day.
\<close>

datatype api_call =
    CallReset SimConfig
  | CallAdvanceDay
  | CallSetRuntimeTuning f32 int int int f32 f32
  | CallSetProductConfigs "ProductConfig list"

fun api_step ::
  "'g rng_ops \<Rightarrow> api_call \<Rightarrow> 'g SimulatorImpl option \<times> DayStats list
     \<Rightarrow> 'g SimulatorImpl option \<times> DayStats list" where
  "api_step R (CallReset c) (h, days) = (ResetSimulator R h c, [])"
| "api_step R CallAdvanceDay (h, days) =
     (api_AdvanceDay R h,
      (case h of None \<Rightarrow> days
       | Some s \<Rightarrow> if day s \<ge> cfgN (cfg s) then days
                   else days @ [GetTodaysStats (api_AdvanceDay R h)]))"
| "api_step R (CallSetRuntimeTuning op mlpo minu maxu ddb spd) (h, days) =
     (SetRuntimeTuning h op mlpo minu maxu ddb spd, days)"
| "api_step R (CallSetProductConfigs ins) (h, days) = (SetProductConfigs h ins, days)"

definition api_run ::
  "'g rng_ops \<Rightarrow> SimConfig \<Rightarrow> api_call list \<Rightarrow> 'g SimulatorImpl option \<times> DayStats list" where
  "api_run R c calls = fold (api_step R) calls (CreateSimulator R c, [])"





subsection \<open>States inside a day\<close>

text \<open>The state of \<open>AdvanceDay\<close>, started in \<open>s\<close>, after the first \<open>k\<close> arrivals of the day
  have been received (lines 539 to 551).\<close>

definition AdvanceDay_receipts :: "'g SimulatorImpl \<Rightarrow> nat \<Rightarrow> 'g SimulatorImpl" where
  "AdvanceDay_receipts s k =
    (case AdvanceDay_pipeline (AdvanceDay_begin s) of (arrivals, s1) \<Rightarrow>
       fold AdvanceDay_receive (take k arrivals) s1)"



subsection \<open>Invariants of the stock\<close>

text \<open>
  An invariant of the stock relates the queue of every product to the current parameters
  of that product. A relation is kept by the operations of the warehouse when it holds
  of the empty queue, depends only on the packages and the remaining shelf lives of the
  batches, survives the normalisation of the parameters, the receipt of a batch that fits
  in the capacity, the decrement of the shelf lives, the removal of batches from the
  front and the reduction of the front batch to a positive number of packages.
\<close>

definition stock_inv ::
  "(Batch list \<Rightarrow> ProductConfig \<Rightarrow> bool) \<Rightarrow> 'g SimulatorImpl \<Rightarrow> bool" where
  "stock_inv Q s \<longleftrightarrow> list_all2 Q (wh s) (products s)"

definition queue_closed :: "(Batch list \<Rightarrow> ProductConfig \<Rightarrow> bool) \<Rightarrow> bool" where
  "queue_closed Q \<longleftrightarrow>
     Q [] ProductConfig0
   \<and> (\<forall>p. Q [] (ClampProduct p))
   \<and> (\<forall>q q' p. Q q p \<longrightarrow> map packages q' = map packages q
          \<longrightarrow> map daysLeft q' = map daysLeft q \<longrightarrow> Q q' p)
   \<and> (\<forall>q p. Q q p \<longrightarrow> Q q (ClampProduct p))
   \<and> (\<forall>q p pk d u. Q q p \<longrightarrow> 0 < pk
          \<longrightarrow> foldl (\<lambda>s b. s + packages b) 0 q + pk \<le> capacityPackages p
          \<longrightarrow> Q (q @ [\<lparr> packages = pk, daysLeft = shelfLifeDays p, discounted = d,
                          unitPrice = u \<rparr>]) p)
   \<and> (\<forall>q p. Q q p \<longrightarrow> Q (map (\<lambda>b. b\<lparr>daysLeft := daysLeft b - 1\<rparr>) q) p)
   \<and> (\<forall>pre q p. Q (pre @ q) p \<longrightarrow> Q q p)
   \<and> (\<forall>b q p k. Q (b # q) p \<longrightarrow> 0 < k \<longrightarrow> k \<le> packages b
          \<longrightarrow> Q (b\<lparr>packages := k\<rparr> # q) p)"




text \<open>
  The capacity bound: the batches of a queue hold a positive number of packages each and
  together no more than the capacity of the product, which lies in its normalised range.
\<close>

definition capacity_ok :: "Batch list \<Rightarrow> ProductConfig \<Rightarrow> bool" where
  "capacity_ok q p \<longleftrightarrow>
     list_all (\<lambda>b. 0 < packages b) q
   \<and> foldl (\<lambda>s b. s + packages b) 0 q \<le> capacityPackages p
   \<and> capacityPackages p \<le> 5000"

definition within_capacity :: "'g SimulatorImpl \<Rightarrow> bool" where
  "within_capacity s \<longleftrightarrow> stock_inv capacity_ok s"

text \<open>
  The calls of \<open>SetProductConfigs\<close> of a run respect a condition \<open>E\<close> when every one
  that is accepted is made in a state in which \<open>E\<close> holds of the queue of every product
  and the parameters given for that product.
\<close>

definition edit_keeps ::
  "(Batch list \<Rightarrow> ProductConfig \<Rightarrow> bool) \<Rightarrow> 'g SimulatorImpl option \<Rightarrow> api_call \<Rightarrow> bool" where
  "edit_keeps E h call =
     (case call of
        CallSetProductConfigs ins \<Rightarrow>
          (case h of
             None \<Rightarrow> True
           | Some s \<Rightarrow> int (length ins) \<noteq> cfgK (cfg s) \<or> list_all2 E (wh s) ins)
      | _ \<Rightarrow> True)"

fun edits_keep ::
  "(Batch list \<Rightarrow> ProductConfig \<Rightarrow> bool) \<Rightarrow> 'g rng_ops \<Rightarrow> api_call list
     \<Rightarrow> 'g SimulatorImpl option \<times> DayStats list \<Rightarrow> bool" where
  "edits_keep E R [] p = True"
| "edits_keep E R (call # calls) p =
     (edit_keeps E (fst p) call \<and> edits_keep E R calls (api_step R call p))"

text \<open>No accepted call of \<open>SetProductConfigs\<close> gives a product a (normalised) shelf life
  below the \<open>daysLeft\<close> of a batch it holds.\<close>

definition shelf_life_kept :: "Batch list \<Rightarrow> ProductConfig \<Rightarrow> bool" where
  "shelf_life_kept q p \<longleftrightarrow> list_all (\<lambda>b. daysLeft b \<le> shelfLifeDays (ClampProduct p)) q"

definition shelf_lives_kept ::
  "'g rng_ops \<Rightarrow> api_call list \<Rightarrow> 'g SimulatorImpl option \<times> DayStats list \<Rightarrow> bool" where
  "shelf_lives_kept R calls p = edits_keep shelf_life_kept R calls p"

text \<open>No accepted call of \<open>SetProductConfigs\<close> gives a product a (normalised) capacity
  below the packages it holds.\<close>

definition capacity_kept :: "Batch list \<Rightarrow> ProductConfig \<Rightarrow> bool" where
  "capacity_kept q p \<longleftrightarrow>
     foldl (\<lambda>s b. s + packages b) 0 q \<le> capacityPackages (ClampProduct p)"

definition capacities_kept ::
  "'g rng_ops \<Rightarrow> api_call list \<Rightarrow> 'g SimulatorImpl option \<times> DayStats list \<Rightarrow> bool" where
  "capacities_kept R calls p = edits_keep capacity_kept R calls p"


section \<open>Test fixtures\<close>

text \<open>The default \<open>SimConfig\<close> of the source, a generator that replays an empty record,
  and the simulator created from them.\<close>

definition SimConfig0 :: SimConfig where
  "SimConfig0 = \<lparr> cfgN = 20, cfgM = 5, cfgK = 12, seed = 12345,
     orderProbability = f32 (85 / 100), maxLinesPerOrder = 6, minUnitsPerLine = 5,
     maxUnitsPerLine = 120, discountDemandBoost = 2, supplierLeadTimeMin = 1,
     supplierLeadTimeMax = 5, secondsPerDay = 6 \<rparr>"

definition demo_rng :: "(draw list) rng_ops" where
  "demo_rng = replay_rng (\<lambda>_. [])"

definition demo_sim :: "(draw list) SimulatorImpl" where
  "demo_sim = SimulatorImpl_new demo_rng SimConfig0"

text \<open>The reorder scenario of the specification: one product with the default
  parameters (threshold 6, capacity 20, reorder amount 12), \<open>k\<close> packages in stock,
  nothing on the way, and a generator whose next two integer draws are 3 and 4.\<close>

definition reorder_sim :: "int \<Rightarrow> (draw list) SimulatorImpl" where
  "reorder_sim k = demo_sim\<lparr> wh := [[\<lparr> packages = k, daysLeft = 14, discounted = False,
                                         unitPrice = 1 \<rparr>]],
                             products := [ProductConfig0], pipeline := [],
                             rng := [DInt 3, DInt 4] \<rparr>"

text \<open>
  Runs on the simulator created with the default configuration and the generator
  \<open>demo_rng\<close>, which draws the lower bound of every range and lets no shop order.

  A run in which the caller edits the products before the first day: every product gets
  a shelf life of one day and reorders up to a capacity of 20 packages.
\<close>

definition shelf_edit_products :: "ProductConfig list" where
  "shelf_edit_products =
     replicate 12 (ProductConfig0\<lparr>shelfLifeDays := 1, reorderThreshold := 20, reorderAmount := 20\<rparr>)"

definition shelf_edit_calls :: "api_call list" where
  "shelf_edit_calls = [CallSetProductConfigs shelf_edit_products, CallAdvanceDay, CallAdvanceDay]"

text \<open>
  A run in which the caller, before the first day, lowers the capacity of product 0 to 2
  packages and lets the other products reorder up to a capacity of 20 packages, and the
  state of the simulator after that call.
\<close>

definition capacity_edit_products :: "ProductConfig list" where
  "capacity_edit_products =
     ProductConfig0\<lparr>capacityPackages := 2\<rparr>
       # replicate 11 (ProductConfig0\<lparr>reorderThreshold := 20\<rparr>)"

definition capacity_edit_calls :: "api_call list" where
  "capacity_edit_calls = [CallSetProductConfigs capacity_edit_products, CallAdvanceDay, CallAdvanceDay]"

definition capacity_edit_sim :: "(draw list) SimulatorImpl" where
  "capacity_edit_sim = ClampAllProducts (demo_sim\<lparr>products := capacity_edit_products\<rparr>)"

text \<open>A run in which the caller raises the shelf life and the capacity of every product
  before the first day, and the state after the day.\<close>

definition raised_products :: "ProductConfig list" where
  "raised_products = replicate 12 (ProductConfig0\<lparr>shelfLifeDays := 30, capacityPackages := 40\<rparr>)"

definition raised_calls :: "api_call list" where
  "raised_calls = [CallSetProductConfigs raised_products, CallAdvanceDay]"

definition raised_sim :: "(draw list) SimulatorImpl" where
  "raised_sim = AdvanceDay demo_rng (ClampAllProducts (demo_sim\<lparr>products := raised_products\<rparr>))"


section \<open>Frame lemmas\<close>

lemma fold_frame:
  assumes "\<And>x s. g (f x s) = g s"
  shows "g (fold f xs s) = g s"
  by (induction xs arbitrary: s) (simp_all add: assms)

lemma PushLog_frame [simp]:
  "cfg (PushLog e s) = cfg s" "rng (PushLog e s) = rng s" "day (PushLog e s) = day s"
  "wh (PushLog e s) = wh s" "products (PushLog e s) = products s"
  "shopNames (PushLog e s) = shopNames s" "pipeline (PushLog e s) = pipeline s"
  "shipmentsByDay (PushLog e s) = shipmentsByDay s" "todaysOrders (PushLog e s) = todaysOrders s"
  "todaysStats (PushLog e s) = todaysStats s" "totalStats (PushLog e s) = totalStats s"
  "dailyAnims (PushLog e s) = dailyAnims s"
  by (simp_all add: PushLog_def Let_def)

lemma Reset_product_frame [simp]:
  "cfg (Reset_product R i s) = cfg s" "day (Reset_product R i s) = day s"
  "shopNames (Reset_product R i s) = shopNames s" "pipeline (Reset_product R i s) = pipeline s"
  "shipmentsByDay (Reset_product R i s) = shipmentsByDay s"
  "todaysOrders (Reset_product R i s) = todaysOrders s"
  "todaysStats (Reset_product R i s) = todaysStats s"
  "totalStats (Reset_product R i s) = totalStats s"
  "logv (Reset_product R i s) = logv s" "dailyAnims (Reset_product R i s) = dailyAnims s"
  by (simp_all add: Reset_product_def Let_def split: prod.splits)

lemma Reset_cfg [simp]: "cfg (Reset R c s) = ClampConfig c"
  by (simp add: Reset_def Reset_init_def Let_def fold_frame [where g = cfg])

lemma Reset_day [simp]: "day (Reset R c s) = 0"
  by (simp add: Reset_def Reset_init_def Let_def fold_frame [where g = day])

lemma Reset_totalStats [simp]: "totalStats (Reset R c s) = DayStats0"
  by (simp add: Reset_def Reset_init_def Let_def fold_frame [where g = totalStats])


lemma ClampAllProducts_fold_products:
  "n \<le> length (products s) \<Longrightarrow>
   products (fold (\<lambda>pid s.
            let ps = (products s)[pid := ClampProduct (products s ! pid)]
            in s\<lparr>products := ps, wh := RepriceBatches (wh s) (int pid) (ps ! pid)\<rparr>) [0..<n] s)
     = map ClampProduct (take n (products s)) @ drop n (products s)"
proof (induction n)
  case 0
  then show ?case by simp
next
  case (Suc n)
  then have n: "n < length (products s)" by simp
  show ?case using Suc.IH n
    by (simp add: Let_def take_Suc_conv_app_nth list_update_append upd_conv_take_nth_drop
        Cons_nth_drop_Suc nth_append)
qed

lemma ClampAllProducts_products:
  "products (ClampAllProducts s) = map ClampProduct (products s)"
  unfolding ClampAllProducts_def
  using ClampAllProducts_fold_products [of "length (products s)" s] by simp

lemma ClampAllProducts_frame [simp]:
  "cfg (ClampAllProducts s) = cfg s" "rng (ClampAllProducts s) = rng s"
  "day (ClampAllProducts s) = day s" "shopNames (ClampAllProducts s) = shopNames s"
  "pipeline (ClampAllProducts s) = pipeline s"
  "shipmentsByDay (ClampAllProducts s) = shipmentsByDay s"
  "todaysOrders (ClampAllProducts s) = todaysOrders s"
  "todaysStats (ClampAllProducts s) = todaysStats s"
  "totalStats (ClampAllProducts s) = totalStats s"
  "logv (ClampAllProducts s) = logv s" "dailyAnims (ClampAllProducts s) = dailyAnims s"
  unfolding ClampAllProducts_def
  by (rule fold_frame, simp add: Let_def)+

lemma ClampConfig_SimConfig0: "ClampConfig SimConfig0 = SimConfig0"
  by code_simp

lemma demo_sim_cfg: "cfg demo_sim = SimConfig0"
  by (simp add: demo_sim_def SimulatorImpl_new_def ClampConfig_SimConfig0)


section \<open>Discounting twice\<close>

lemma DiscountLoop_again:
  "DiscountLoop pc dq a = (dq', r) \<Longrightarrow> DiscountLoop pc dq' a' = (dq', a')"
  by (induction dq arbitrary: a dq' r a') (auto split: prod.splits if_splits)

text \<open>
  C7. A second call of \<open>ApplyDiscountIfNeeded\<close> for the same product, with the same
  product parameters, right after a first one reports 0 affected packages and leaves
  the warehouse as the first call left it.
\<close>

theorem ApplyDiscountIfNeeded_twice:
  "ApplyDiscountIfNeeded (snd (ApplyDiscountIfNeeded iv pid pc)) pid pc
     = (0, snd (ApplyDiscountIfNeeded iv pid pc))"
proof (cases "pid < 0 \<or> pid \<ge> int (length iv)")
  case True
  then show ?thesis by (simp add: ApplyDiscountIfNeeded_def)
next
  case False
  obtain dq' r where d: "DiscountLoop pc (iv ! nat pid) 0 = (dq', r)" by fastforce
  have "DiscountLoop pc dq' 0 = (dq', 0)" by (rule DiscountLoop_again [OF d])
  moreover from False have "nat pid < length iv" by linarith
  ultimately show ?thesis using False d by (simp add: ApplyDiscountIfNeeded_def)
qed


section \<open>The guards\<close>

text \<open>
  C8. Once the day counter has reached the configured number of days, \<open>AdvanceDay\<close>
  returns the simulator as it was: every member, the generator included, is unchanged.
\<close>

theorem AdvanceDay_past_end:
  "cfgN (cfg s) \<le> day s \<Longrightarrow> AdvanceDay R s = s"
  by (simp add: AdvanceDay_def)

theorem AdvanceDay_past_end_witness:
  "cfgN (cfg (demo_sim\<lparr>day := 20\<rparr>)) \<le> day (demo_sim\<lparr>day := 20\<rparr>)
   \<and> AdvanceDay demo_rng (demo_sim\<lparr>day := 20\<rparr>) = demo_sim\<lparr>day := 20\<rparr>"
proof -
  have h: "cfgN (cfg (demo_sim\<lparr>day := 20\<rparr>)) \<le> day (demo_sim\<lparr>day := 20\<rparr>)"
    by (simp add: demo_sim_cfg SimConfig0_def)
  show ?thesis using h AdvanceDay_past_end [OF h, of demo_rng] by simp
qed

text \<open>
  C9. \<open>SetProductConfigs\<close> on a null handle does nothing. On a simulator it leaves the
  whole state as it was when the length of the list differs from \<open>K\<close>; when the length
  is \<open>K\<close> the product list becomes the given list, each entry normalised by
  \<open>ClampProduct\<close>, whatever the product list was before.
\<close>

theorem SetProductConfigs_length:
  "SetProductConfigs None ins = None
   \<and> (int (length ins) \<noteq> cfgK (cfg s) \<longrightarrow> SetProductConfigs (Some s) ins = Some s)
   \<and> (int (length ins) = cfgK (cfg s) \<longrightarrow>
        (\<exists>s'. SetProductConfigs (Some s) ins = Some s'
              \<and> products s' = map ClampProduct ins \<and> cfg s' = cfg s))"
  by (simp add: SetProductConfigs_def ClampAllProducts_products)

theorem SetProductConfigs_length_witness:
  "int (length [ProductConfig0]) \<noteq> cfgK (cfg demo_sim)
   \<and> SetProductConfigs (Some demo_sim) [ProductConfig0] = Some demo_sim
   \<and> int (length (replicate 12 ProductConfig0)) = cfgK (cfg demo_sim)
   \<and> (\<exists>s'. SetProductConfigs (Some demo_sim) (replicate 12 ProductConfig0) = Some s'
           \<and> products s' = map ClampProduct (replicate 12 ProductConfig0))"
  using SetProductConfigs_length [of "[ProductConfig0]" demo_sim]
        SetProductConfigs_length [of "replicate 12 ProductConfig0" demo_sim]
  by (auto simp: demo_sim_cfg SimConfig0_def)

text \<open>
  C10. For an order line that asks for no units, and for a product whose
  \<open>unitsPerPackage\<close> is not positive, \<open>FulfillLine\<close> returns at once: the order line, the
  batch queues, the generator and the statistics of the day are what they were.
\<close>

theorem FulfillLine_early_return:
  "requestedUnits line \<le> 0 \<or> unitsPerPackage pc \<le> 0 \<Longrightarrow>
     FulfillLine iv line pc R g st = (line, iv, g, st)"
  by (auto simp: FulfillLine_def)

theorem FulfillLine_early_return_witness:
  "(requestedUnits OrderLine0 \<le> 0 \<or> unitsPerPackage ProductConfig0 \<le> 0)
   \<and> FulfillLine (wh demo_sim) OrderLine0 ProductConfig0 demo_rng [DBool True] DayStats0
       = (OrderLine0, wh demo_sim, [DBool True], DayStats0)
   \<and> FulfillLine (wh demo_sim) (OrderLine0\<lparr>productId := 0, requestedUnits := 25\<rparr>)
         (ProductConfig0\<lparr>unitsPerPackage := 0\<rparr>) demo_rng [DBool True] DayStats0
       = (OrderLine0\<lparr>productId := 0, requestedUnits := 25\<rparr>, wh demo_sim, [DBool True], DayStats0)"
  using FulfillLine_early_return [of OrderLine0 ProductConfig0 "wh demo_sim" demo_rng "[DBool True]" DayStats0]
        FulfillLine_early_return [of "OrderLine0\<lparr>productId := 0, requestedUnits := 25\<rparr>"
          "ProductConfig0\<lparr>unitsPerPackage := 0\<rparr>" "wh demo_sim" demo_rng "[DBool True]" DayStats0]
  by (simp add: OrderLine0_def)


lemma fold_frame2:
  assumes "\<And>x a s. g (snd (f x (a, s))) = g s"
  shows "g (snd (fold f xs (a, s))) = g s"
proof (induction xs arbitrary: a s)
  case Nil
  show ?case by simp
next
  case (Cons x xs)
  obtain a' s' where e: "f x (a, s) = (a', s')" by fastforce
  have "g s' = g s" using assms [of x a s] e by simp
  with Cons [of a' s'] e show ?case by simp
qed

lemma fold_frame3:
  assumes "\<And>x a b s. g (snd (snd (f x (a, b, s)))) = g s"
  shows "g (snd (snd (fold f xs (a, b, s)))) = g s"
proof (induction xs arbitrary: a b s)
  case Nil
  show ?case by simp
next
  case (Cons x xs)
  obtain a' b' s' where e: "f x (a, b, s) = (a', b', s')" by (metis prod_cases3)
  have "g s' = g s" using assms [of x a b s] e by simp
  with Cons [of a' b' s'] e show ?case by simp
qed

lemma AdvanceDay_pipeline_frame [simp]:
  "cfg (snd (AdvanceDay_pipeline s)) = cfg s" "day (snd (AdvanceDay_pipeline s)) = day s"
  "products (snd (AdvanceDay_pipeline s)) = products s"
  "wh (snd (AdvanceDay_pipeline s)) = wh s"
  "todaysStats (snd (AdvanceDay_pipeline s)) = todaysStats s"
  "totalStats (snd (AdvanceDay_pipeline s)) = totalStats s"
  by (simp_all add: AdvanceDay_pipeline_def Let_def)

lemma AdvanceDay_receive_frame [simp]:
  "cfg (AdvanceDay_receive a s) = cfg s" "day (AdvanceDay_receive a s) = day s"
  "products (AdvanceDay_receive a s) = products s"
  "pipeline (AdvanceDay_receive a s) = pipeline s"
  "todaysStats (AdvanceDay_receive a s) = todaysStats s"
  "totalStats (AdvanceDay_receive a s) = totalStats s"
  by (simp_all add: AdvanceDay_receive_def Let_def split: prod.splits)

lemma AdvanceDay_writeOff_frame [simp]:
  "cfg (snd (AdvanceDay_writeOff pid (a, s))) = cfg s"
  "day (snd (AdvanceDay_writeOff pid (a, s))) = day s"
  "products (snd (AdvanceDay_writeOff pid (a, s))) = products s"
  "pipeline (snd (AdvanceDay_writeOff pid (a, s))) = pipeline s"
  "totalStats (snd (AdvanceDay_writeOff pid (a, s))) = totalStats s"
  by (simp_all add: AdvanceDay_writeOff_def Let_def split: prod.splits)

lemma AdvanceDay_discount_frame [simp]:
  "cfg (AdvanceDay_discount pid s) = cfg s" "day (AdvanceDay_discount pid s) = day s"
  "products (AdvanceDay_discount pid s) = products s"
  "pipeline (AdvanceDay_discount pid s) = pipeline s"
  "todaysStats (AdvanceDay_discount pid s) = todaysStats s"
  "totalStats (AdvanceDay_discount pid s) = totalStats s"
  by (simp_all add: AdvanceDay_discount_def Let_def split: prod.splits)

lemma PickDistinctProductsWeighted_frame [simp]:
  "cfg (snd (PickDistinctProductsWeighted R n s)) = cfg s"
  "day (snd (PickDistinctProductsWeighted R n s)) = day s"
  "products (snd (PickDistinctProductsWeighted R n s)) = products s"
  "wh (snd (PickDistinctProductsWeighted R n s)) = wh s"
  "pipeline (snd (PickDistinctProductsWeighted R n s)) = pipeline s"
  "todaysOrders (snd (PickDistinctProductsWeighted R n s)) = todaysOrders s"
  "todaysStats (snd (PickDistinctProductsWeighted R n s)) = todaysStats s"
  "totalStats (snd (PickDistinctProductsWeighted R n s)) = totalStats s"
  by (simp_all add: PickDistinctProductsWeighted_def Let_def split: prod.splits)

lemma AdvanceDay_order_frame [simp]:
  "cfg (AdvanceDay_order R shop s) = cfg s" "day (AdvanceDay_order R shop s) = day s"
  "products (AdvanceDay_order R shop s) = products s"
  "wh (AdvanceDay_order R shop s) = wh s"
  "pipeline (AdvanceDay_order R shop s) = pipeline s"
  "todaysStats (AdvanceDay_order R shop s) = todaysStats s"
  "totalStats (AdvanceDay_order R shop s) = totalStats s"
  unfolding AdvanceDay_order_def Let_def
  by (auto split: prod.splits
           dest: arg_cong [where f = "\<lambda>p. cfg (snd p)"] arg_cong [where f = "\<lambda>p. day (snd p)"]
                 arg_cong [where f = "\<lambda>p. products (snd p)"] arg_cong [where f = "\<lambda>p. wh (snd p)"]
                 arg_cong [where f = "\<lambda>p. pipeline (snd p)"]
                 arg_cong [where f = "\<lambda>p. todaysStats (snd p)"]
                 arg_cong [where f = "\<lambda>p. totalStats (snd p)"])


lemma AdvanceDay_fulfillLine_frame [simp]:
  "cfg (snd (snd (AdvanceDay_fulfillLine R ol (a, b, s)))) = cfg s"
  "day (snd (snd (AdvanceDay_fulfillLine R ol (a, b, s)))) = day s"
  "products (snd (snd (AdvanceDay_fulfillLine R ol (a, b, s)))) = products s"
  "pipeline (snd (snd (AdvanceDay_fulfillLine R ol (a, b, s)))) = pipeline s"
  "totalStats (snd (snd (AdvanceDay_fulfillLine R ol (a, b, s)))) = totalStats s"
  by (simp_all add: AdvanceDay_fulfillLine_def split: prod.splits)

lemma AdvanceDay_fulfillOrder_frame [simp]:
  "cfg (snd (snd (AdvanceDay_fulfillOrder R ord (a, b, s)))) = cfg s"
  "day (snd (snd (AdvanceDay_fulfillOrder R ord (a, b, s)))) = day s"
  "products (snd (snd (AdvanceDay_fulfillOrder R ord (a, b, s)))) = products s"
  "pipeline (snd (snd (AdvanceDay_fulfillOrder R ord (a, b, s)))) = pipeline s"
  "totalStats (snd (snd (AdvanceDay_fulfillOrder R ord (a, b, s)))) = totalStats s"
proof -
  obtain ls sh s1 where e: "fold (AdvanceDay_fulfillLine R) (lines ord) ([], [], s) = (ls, sh, s1)"
    by (metis prod_cases3)
  have s1: "s1 = snd (snd (fold (AdvanceDay_fulfillLine R) (lines ord) ([], [], s)))"
    by (simp add: e)
  have r: "snd (snd (AdvanceDay_fulfillOrder R ord (a, b, s))) = s1"
    by (simp add: AdvanceDay_fulfillOrder_def e Let_def)
  show "cfg (snd (snd (AdvanceDay_fulfillOrder R ord (a, b, s)))) = cfg s"
    unfolding r s1 by (rule fold_frame3) simp
  show "day (snd (snd (AdvanceDay_fulfillOrder R ord (a, b, s)))) = day s"
    unfolding r s1 by (rule fold_frame3) simp
  show "products (snd (snd (AdvanceDay_fulfillOrder R ord (a, b, s)))) = products s"
    unfolding r s1 by (rule fold_frame3) simp
  show "pipeline (snd (snd (AdvanceDay_fulfillOrder R ord (a, b, s)))) = pipeline s"
    unfolding r s1 by (rule fold_frame3) simp
  show "totalStats (snd (snd (AdvanceDay_fulfillOrder R ord (a, b, s)))) = totalStats s"
    unfolding r s1 by (rule fold_frame3) simp
qed

lemma CreateSupplierRequestIfNeeded_frame [simp]:
  "cfg (CreateSupplierRequestIfNeeded R pid s) = cfg s"
  "day (CreateSupplierRequestIfNeeded R pid s) = day s"
  "products (CreateSupplierRequestIfNeeded R pid s) = products s"
  "wh (CreateSupplierRequestIfNeeded R pid s) = wh s"
  "todaysOrders (CreateSupplierRequestIfNeeded R pid s) = todaysOrders s"
  "todaysStats (CreateSupplierRequestIfNeeded R pid s) = todaysStats s"
  "totalStats (CreateSupplierRequestIfNeeded R pid s) = totalStats s"
  by (simp_all add: CreateSupplierRequestIfNeeded_def Let_def split: prod.splits)

lemma BuildDailyAnimations_supply_frame [simp]:
  "cfg (BuildDailyAnimations_supply ar s) = cfg s"
  "day (BuildDailyAnimations_supply ar s) = day s"
  "products (BuildDailyAnimations_supply ar s) = products s"
  "wh (BuildDailyAnimations_supply ar s) = wh s"
  "pipeline (BuildDailyAnimations_supply ar s) = pipeline s"
  "todaysOrders (BuildDailyAnimations_supply ar s) = todaysOrders s"
  "todaysStats (BuildDailyAnimations_supply ar s) = todaysStats s"
  "totalStats (BuildDailyAnimations_supply ar s) = totalStats s"
  "logv (BuildDailyAnimations_supply ar s) = logv s"
  unfolding BuildDailyAnimations_supply_def
  by (rule fold_frame, simp)+

lemma BuildDailyAnimations_orders_frame [simp]:
  "cfg (BuildDailyAnimations_orders R os s) = cfg s"
  "day (BuildDailyAnimations_orders R os s) = day s"
  "products (BuildDailyAnimations_orders R os s) = products s"
  "wh (BuildDailyAnimations_orders R os s) = wh s"
  "pipeline (BuildDailyAnimations_orders R os s) = pipeline s"
  "todaysOrders (BuildDailyAnimations_orders R os s) = todaysOrders s"
  "todaysStats (BuildDailyAnimations_orders R os s) = todaysStats s"
  "totalStats (BuildDailyAnimations_orders R os s) = totalStats s"
  "logv (BuildDailyAnimations_orders R os s) = logv s"
  unfolding BuildDailyAnimations_orders_def
  by (rule fold_frame, simp split: prod.splits)+

lemma BuildDailyAnimations_waste_frame [simp]:
  "cfg (BuildDailyAnimations_waste wo s) = cfg s"
  "day (BuildDailyAnimations_waste wo s) = day s"
  "products (BuildDailyAnimations_waste wo s) = products s"
  "wh (BuildDailyAnimations_waste wo s) = wh s"
  "pipeline (BuildDailyAnimations_waste wo s) = pipeline s"
  "todaysOrders (BuildDailyAnimations_waste wo s) = todaysOrders s"
  "todaysStats (BuildDailyAnimations_waste wo s) = todaysStats s"
  "totalStats (BuildDailyAnimations_waste wo s) = totalStats s"
  "logv (BuildDailyAnimations_waste wo s) = logv s"
  by (simp_all add: BuildDailyAnimations_waste_def Let_def)

lemma BuildDailyAnimations_shipments_frame [simp]:
  "cfg (BuildDailyAnimations_shipments sd s) = cfg s"
  "day (BuildDailyAnimations_shipments sd s) = day s"
  "products (BuildDailyAnimations_shipments sd s) = products s"
  "wh (BuildDailyAnimations_shipments sd s) = wh s"
  "pipeline (BuildDailyAnimations_shipments sd s) = pipeline s"
  "todaysOrders (BuildDailyAnimations_shipments sd s) = todaysOrders s"
  "todaysStats (BuildDailyAnimations_shipments sd s) = todaysStats s"
  "totalStats (BuildDailyAnimations_shipments sd s) = totalStats s"
  "logv (BuildDailyAnimations_shipments sd s) = logv s"
  unfolding BuildDailyAnimations_shipments_def Let_def
  by (rule fold_frame2, simp)+

lemma BuildDailyAnimations_frame [simp]:
  "cfg (BuildDailyAnimations R ar os sd wo s) = cfg s"
  "day (BuildDailyAnimations R ar os sd wo s) = day s"
  "products (BuildDailyAnimations R ar os sd wo s) = products s"
  "wh (BuildDailyAnimations R ar os sd wo s) = wh s"
  "pipeline (BuildDailyAnimations R ar os sd wo s) = pipeline s"
  "todaysOrders (BuildDailyAnimations R ar os sd wo s) = todaysOrders s"
  "todaysStats (BuildDailyAnimations R ar os sd wo s) = todaysStats s"
  "totalStats (BuildDailyAnimations R ar os sd wo s) = totalStats s"
  "logv (BuildDailyAnimations R ar os sd wo s) = logv s"
  by (simp_all add: BuildDailyAnimations_def)


lemma AdvanceDay_begin_frame [simp]:
  "cfg (AdvanceDay_begin s) = cfg s" "day (AdvanceDay_begin s) = day s + 1"
  "pipeline (AdvanceDay_begin s) = pipeline s"
  "totalStats (AdvanceDay_begin s) = totalStats s"
  "products (AdvanceDay_begin s) = map ClampProduct (products s)"
  by (simp_all add: AdvanceDay_begin_def Let_def ClampAllProducts_products)

lemma AdvanceDay_supply_frame [simp]:
  "cfg (snd (AdvanceDay_supply s)) = cfg s" "day (snd (AdvanceDay_supply s)) = day s"
  "products (snd (AdvanceDay_supply s)) = products s"
  "todaysStats (snd (AdvanceDay_supply s)) = todaysStats s"
  "totalStats (snd (AdvanceDay_supply s)) = totalStats s"
  by (simp_all add: AdvanceDay_supply_def case_prod_beta fold_frame)

lemma AdvanceDay_shelf_frame [simp]:
  "cfg (snd (AdvanceDay_shelf s)) = cfg s" "day (snd (AdvanceDay_shelf s)) = day s"
  "products (snd (AdvanceDay_shelf s)) = products s"
  "pipeline (snd (AdvanceDay_shelf s)) = pipeline s"
  "totalStats (snd (AdvanceDay_shelf s)) = totalStats s"
  by (simp_all add: AdvanceDay_shelf_def Let_def case_prod_beta fold_frame fold_frame2)

lemma AdvanceDay_orders_frame [simp]:
  "cfg (AdvanceDay_orders R s) = cfg s" "day (AdvanceDay_orders R s) = day s"
  "products (AdvanceDay_orders R s) = products s" "wh (AdvanceDay_orders R s) = wh s"
  "pipeline (AdvanceDay_orders R s) = pipeline s"
  "todaysStats (AdvanceDay_orders R s) = todaysStats s"
  "totalStats (AdvanceDay_orders R s) = totalStats s"
  by (simp_all add: AdvanceDay_orders_def fold_frame)

lemma AdvanceDay_fulfill_frame [simp]:
  "cfg (AdvanceDay_fulfill R s) = cfg s" "day (AdvanceDay_fulfill R s) = day s"
  "products (AdvanceDay_fulfill R s) = products s"
  "pipeline (AdvanceDay_fulfill R s) = pipeline s"
  "totalStats (AdvanceDay_fulfill R s) = totalStats s"
  by (simp_all add: AdvanceDay_fulfill_def Let_def case_prod_beta fold_frame3)

lemma AdvanceDay_reorder_frame [simp]:
  "cfg (AdvanceDay_reorder R s) = cfg s" "day (AdvanceDay_reorder R s) = day s"
  "products (AdvanceDay_reorder R s) = products s" "wh (AdvanceDay_reorder R s) = wh s"
  "todaysOrders (AdvanceDay_reorder R s) = todaysOrders s"
  "todaysStats (AdvanceDay_reorder R s) = todaysStats s"
  "totalStats (AdvanceDay_reorder R s) = totalStats s"
  by (simp_all add: AdvanceDay_reorder_def fold_frame)

lemma AdvanceDay_totals_frame [simp]:
  "cfg (AdvanceDay_totals s) = cfg s" "day (AdvanceDay_totals s) = day s"
  "products (AdvanceDay_totals s) = products s" "wh (AdvanceDay_totals s) = wh s"
  "pipeline (AdvanceDay_totals s) = pipeline s"
  "todaysOrders (AdvanceDay_totals s) = todaysOrders s"
  "todaysStats (AdvanceDay_totals s) = todaysStats s"
  "totalStats (AdvanceDay_totals s) = add_totals (totalStats s) (todaysStats s)"
  by (simp_all add: AdvanceDay_totals_def Let_def)

lemma AdvanceDay_body_frame [simp]:
  "cfg (AdvanceDay_body R s) = cfg s" "day (AdvanceDay_body R s) = day s + 1"
  "products (AdvanceDay_body R s) = map ClampProduct (products s)"
  by (simp_all add: AdvanceDay_body_def Let_def case_prod_beta)



lemma AdvanceDay_frame [simp]:
  "cfg (AdvanceDay R s) = cfg s"
  by (simp add: AdvanceDay_def)

lemma Reset_indep: "Reset R c s1 = Reset R c s2"
  by (cases s1, cases s2) (simp add: Reset_def Reset_init_def Let_def)


section \<open>Cumulative statistics\<close>












section \<open>Supplier requests\<close>

lemma rng_ok_replay: "rng_ok (replay_rng tape)"
proof -
  have i: "lo \<le> hi \<Longrightarrow> lo \<le> fst (replay_int lo hi g) \<and> fst (replay_int lo hi g) \<le> hi"
    for lo hi g
    by (cases "(lo, hi, g)" rule: replay_int.cases) (auto simp: clamp_def)
  have r: "lo \<le> hi \<Longrightarrow> lo \<le> fst (replay_real lo hi g) \<and> fst (replay_real lo hi g) \<le> hi"
    for lo hi g
    by (cases "(lo, hi, g)" rule: replay_real.cases) (auto simp: clamp_def)
  show ?thesis
    unfolding rng_ok_def replay_rng_def using i r by simp
qed


lemma reorder_sim_eval:
  "products (reorder_sim k) = [ProductConfig0]"
  "TotalPackages (wh (reorder_sim k)) 0 = k"
  "IncomingPackages (reorder_sim k) 0 = 0"
  "IncomingPackages ((reorder_sim k)\<lparr>products := ps\<rparr>) 0 = 0"
  "pipeline (reorder_sim k) = []"
  "rng (reorder_sim k) = [DInt 3, DInt 4]"
  "cfg (reorder_sim k) = SimConfig0"
  by (simp_all add: reorder_sim_def TotalPackages_def IncomingPackages_def demo_sim_cfg)



section \<open>Rounding\<close>

lemma pow2_powi: "pow2 e = 2 powi e"
  by (simp add: pow2_def power_int_def inverse_eq_divide power_one_over)

lemma pow2_pos [simp]: "0 < pow2 e"
  by (simp add: pow2_powi)

lemma pow2_add: "pow2 (a + b) = pow2 a * pow2 b"
  by (simp add: pow2_powi power_int_add)

lemma pow2_diff: "pow2 (a - b) = pow2 a / pow2 b"
  by (simp add: pow2_powi power_int_diff)

lemma pow2_nat: "0 \<le> e \<Longrightarrow> pow2 e = 2 ^ nat e"
  by (simp add: pow2_def)

lemma pow2_0 [simp]: "pow2 0 = 1"
  by (simp add: pow2_def)

lemma pow2_le_iff [simp]: "pow2 a \<le> pow2 b \<longleftrightarrow> a \<le> b"
  by (metis pow2_powi linorder_not_less one_less_numeral_iff order_less_imp_le
      power_int_increasing power_int_strict_increasing semiring_norm(76))

lemma pow2_less_iff [simp]: "pow2 a < pow2 b \<longleftrightarrow> a < b"
  by (metis pow2_le_iff linorder_not_less)

lemma ilog2_bounds:
  assumes "0 < x"
  shows "pow2 (ilog2 x) \<le> x \<and> x < pow2 (ilog2 x + 1)"
proof -
  obtain p q where pq: "quotient_of x = (p, q)" by fastforce
  have q: "0 < q" using quotient_of_denom_pos [OF pq] .
  have x: "x = of_int p / of_int q" using quotient_of_div [OF pq] .
  have p: "0 < p" using assms q x by (simp add: zero_less_divide_iff)
  have bp: "2 ^ nat (bitlen p - 1) \<le> p \<and> p < 2 ^ nat (bitlen p)" using bitlen_bounds [OF p] .
  have bq: "2 ^ nat (bitlen q - 1) \<le> q \<and> q < 2 ^ nat (bitlen q)" using bitlen_bounds [OF q] .
  have bp1: "1 \<le> bitlen p"
  proof (rule ccontr)
    assume "\<not> 1 \<le> bitlen p"
    then have "nat (bitlen p) = 0" by simp
    with bp p show False by simp
  qed
  have bq1: "1 \<le> bitlen q"
  proof (rule ccontr)
    assume "\<not> 1 \<le> bitlen q"
    then have "nat (bitlen q) = 0" by simp
    with bq q show False by simp
  qed
  have p_lo: "pow2 (bitlen p - 1) \<le> of_int p"
  proof -
    have "(of_int (2 ^ nat (bitlen p - 1)) :: rat) \<le> of_int p" using bp by (simp only: of_int_le_iff)
    then show ?thesis using bp1 by (simp add: pow2_nat)
  qed
  have p_hi: "of_int p < pow2 (bitlen p)"
  proof -
    have "(of_int p :: rat) < of_int (2 ^ nat (bitlen p))" using bp by (simp only: of_int_less_iff)
    then show ?thesis using bp1 by (simp add: pow2_nat)
  qed
  have q_lo: "pow2 (bitlen q - 1) \<le> of_int q"
  proof -
    have "(of_int (2 ^ nat (bitlen q - 1)) :: rat) \<le> of_int q" using bq by (simp only: of_int_le_iff)
    then show ?thesis using bq1 by (simp add: pow2_nat)
  qed
  have q_hi: "of_int q < pow2 (bitlen q)"
  proof -
    have "(of_int q :: rat) < of_int (2 ^ nat (bitlen q))" using bq by (simp only: of_int_less_iff)
    then show ?thesis using bq1 by (simp add: pow2_nat)
  qed
  have qr: "(0::rat) < of_int q" using q by simp
  define d where "d = bitlen p - bitlen q"
  have lo: "pow2 (d - 1) \<le> x"
  proof -
    have "pow2 (d - 1) * of_int q \<le> pow2 (d - 1) * pow2 (bitlen q)"
      using q_hi by (simp add: less_imp_le)
    also have "\<dots> = pow2 (bitlen p - 1)" by (simp add: d_def pow2_add [symmetric])
    also have "\<dots> \<le> of_int p" by (rule p_lo)
    finally show ?thesis using qr by (simp add: x pos_le_divide_eq)
  qed
  have hi: "x < pow2 (d + 1)"
  proof -
    have "of_int p < pow2 (bitlen p)" by (rule p_hi)
    also have "\<dots> = pow2 (d + 1) * pow2 (bitlen q - 1)" by (simp add: d_def pow2_add [symmetric])
    also have "\<dots> \<le> pow2 (d + 1) * of_int q" using q_lo by simp
    finally show ?thesis using qr by (simp add: x pos_divide_less_eq)
  qed
  show ?thesis
  proof (cases "pow2 d \<le> x")
    case True
    then have "ilog2 x = d" by (simp add: ilog2_def pq d_def Let_def)
    with True hi show ?thesis by simp
  next
    case False
    then have "ilog2 x = d - 1" by (simp add: ilog2_def pq d_def Let_def)
    with False lo show ?thesis by simp
  qed
qed

lemma ilog2_unique:
  assumes "pow2 e \<le> x" "x < pow2 (e + 1)"
  shows "ilog2 x = e"
proof -
  have x: "0 < x" using assms(1) pow2_pos [of e] by linarith
  note b = ilog2_bounds [OF x]
  have "pow2 e < pow2 (ilog2 x + 1)" using assms(1) b by linarith
  moreover have "pow2 (ilog2 x) < pow2 (e + 1)" using assms(2) b by linarith
  ultimately show ?thesis by simp
qed

lemma rne_error: "\<bar>of_int (rne y) - y\<bar> \<le> 1 / 2"
proof -
  have "of_int \<lfloor>y\<rfloor> \<le> y" "y < of_int \<lfloor>y\<rfloor> + 1" by linarith+
  then show ?thesis by (auto simp: rne_def Let_def abs_le_iff)
qed

lemma rne_of_int [simp]: "rne (of_int k) = k"
  by (simp add: rne_def)

lemma rne_ge: "of_int n \<le> y \<Longrightarrow> n \<le> rne y"
proof -
  assume "of_int n \<le> y"
  then have "n \<le> \<lfloor>y\<rfloor>" by (simp add: le_floor_iff)
  then show ?thesis by (auto simp: rne_def Let_def)
qed

lemma rne_le: "y \<le> of_int n \<Longrightarrow> rne y \<le> n"
proof -
  assume a: "y \<le> of_int n"
  show ?thesis
  proof (cases "y = of_int n")
    case True
    then show ?thesis by simp
  next
    case False
    with a have "y < of_int n" by simp
    then have "\<lfloor>y\<rfloor> < n" by (simp add: floor_less_iff)
    then show ?thesis by (auto simp: rne_def Let_def)
  qed
qed

lemma rnd_error:
  assumes "x \<noteq> 0"
  shows "\<bar>rnd p x - x\<bar> \<le> pow2 (ilog2 \<bar>x\<bar> - int p)"
proof -
  define u where "u = pow2 (ilog2 \<bar>x\<bar> - (int p - 1))"
  have u: "0 < u" by (simp add: u_def)
  have r: "rnd p x = of_int (rne (x / u)) * u" using assms by (simp add: rnd_def u_def Let_def)
  have "rnd p x - x = (of_int (rne (x / u)) - x / u) * u"
    using u by (simp add: r left_diff_distrib)
  then have "\<bar>rnd p x - x\<bar> = \<bar>of_int (rne (x / u)) - x / u\<bar> * u"
    using u by (simp add: abs_mult abs_of_pos)
  also have "\<dots> \<le> (1 / 2) * u" using rne_error [of "x / u"] u by (simp only: mult_le_cancel_right_pos)
  also have "\<dots> = pow2 (ilog2 \<bar>x\<bar> - int p)"
  proof -
    have "ilog2 \<bar>x\<bar> - (int p - 1) = (ilog2 \<bar>x\<bar> - int p) + 1" by simp
    then have "u = pow2 (ilog2 \<bar>x\<bar> - int p) * 2" unfolding u_def by (simp only: pow2_add) (simp add: pow2_def)
    then show ?thesis by simp
  qed
  finally show ?thesis .
qed

lemma rnd_error_rel:
  assumes "x \<noteq> 0"
  shows "\<bar>rnd p x - x\<bar> \<le> \<bar>x\<bar> / 2 ^ p"
proof -
  have a: "0 < \<bar>x\<bar>" using assms by simp
  have "pow2 (ilog2 \<bar>x\<bar> - int p) = pow2 (ilog2 \<bar>x\<bar>) / 2 ^ p"
    by (simp add: pow2_diff pow2_nat)
  also have "\<dots> \<le> \<bar>x\<bar> / 2 ^ p"
    using ilog2_bounds [OF a] by (simp add: divide_right_mono)
  finally show ?thesis using rnd_error [OF assms, of p] by linarith
qed

lemma rnd_exact:
  assumes k: "\<bar>k\<bar> \<le> 2 ^ p" and p: "0 < p"
  shows "rnd p (of_int k * pow2 j) = of_int k * pow2 j"
proof (cases "k = 0")
  case True
  then show ?thesis by (simp add: rnd_def)
next
  case False
  define x where "x = (of_int k :: rat) * pow2 j"
  have x0: "x \<noteq> 0" using False by (simp add: x_def less_imp_neq [OF pow2_pos, symmetric])
  have ax: "\<bar>x\<bar> = of_int \<bar>k\<bar> * pow2 j" by (simp add: x_def abs_mult abs_of_pos)
  define e where "e = ilog2 \<bar>x\<bar>"
  have b: "pow2 e \<le> \<bar>x\<bar>" "\<bar>x\<bar> < pow2 (e + 1)"
    using ilog2_bounds [of "\<bar>x\<bar>"] x0 by (simp_all add: e_def)
  have kk: "(of_int \<bar>k\<bar> :: rat) \<le> 2 ^ p"
  proof -
    have "(of_int \<bar>k\<bar> :: rat) \<le> of_int (2 ^ p)" using k by (simp only: of_int_le_iff)
    then show ?thesis by simp
  qed
  have "\<bar>x\<bar> \<le> 2 ^ p * pow2 j" unfolding ax using kk by simp
  also have "\<dots> = pow2 (int p + j)" by (simp add: pow2_add pow2_nat)
  finally have "pow2 e \<le> pow2 (int p + j)" using b(1) by linarith
  then have e_le: "e \<le> int p + j" by simp
  define t where "t = j - (e - (int p - 1))"
  define u where "u = pow2 (e - (int p - 1))"
  have u: "0 < u" by (simp add: u_def)
  have r: "rnd p x = of_int (rne (x / u)) * u" using x0 by (simp add: rnd_def u_def e_def Let_def)
  have xu: "x / u = of_int k * pow2 t" by (simp add: x_def u_def t_def pow2_diff)
  have "\<exists>i. x / u = of_int i"
  proof (cases "0 \<le> t")
    case True
    have "x / u = of_int (k * 2 ^ nat t)" using True by (simp add: xu pow2_nat)
    then show ?thesis by blast
  next
    case False
    with e_le have t: "t = - 1" by (simp add: t_def)
    then have e: "e = int p + j" by (simp add: t_def)
    have "pow2 (int p + j) \<le> of_int \<bar>k\<bar> * pow2 j" using b(1) by (simp add: e ax)
    then have "2 ^ p * pow2 j \<le> of_int \<bar>k\<bar> * pow2 j" by (simp add: pow2_add pow2_nat)
    then have "(2 ^ p :: rat) \<le> of_int \<bar>k\<bar>" by simp
    then have "(of_int (2 ^ p) :: rat) \<le> of_int \<bar>k\<bar>" by simp
    then have "2 ^ p \<le> \<bar>k\<bar>" by (simp only: of_int_le_iff)
    with k have ak: "\<bar>k\<bar> = 2 ^ p" by simp
    obtain p' where p': "p = Suc p'" using p by (cases p) auto
    have "k = 2 * 2 ^ p' \<or> k = - (2 * 2 ^ p')" using ak by (auto simp: p' abs_if split: if_splits)
    then have "x / u = of_int (2 ^ p') \<or> x / u = of_int (- (2 ^ p'))"
      by (auto simp: xu t pow2_def)
    then show ?thesis by blast
  qed
  then obtain i where i: "x / u = of_int i" by blast
  have "rnd p x = x / u * u" by (simp add: r i)
  also have "\<dots> = x" using u by simp
  finally show ?thesis by (simp add: x_def)
qed

lemma rnd_form:
  assumes "0 < x"
  shows "\<exists>k. rnd p x = of_int k * pow2 (ilog2 x - (int p - 1)) \<and> 0 \<le> k \<and> k \<le> 2 ^ p"
proof -
  define u where "u = pow2 (ilog2 x - (int p - 1))"
  have u: "0 < u" by (simp add: u_def)
  have r: "rnd p x = of_int (rne (x / u)) * u" using assms by (simp add: rnd_def u_def Let_def)
  have "(of_int 0 :: rat) \<le> x / u" using assms u by simp
  then have k0: "0 \<le> rne (x / u)" by (rule rne_ge)
  have "x < pow2 (ilog2 x + 1)" using ilog2_bounds [OF assms] by simp
  also have "\<dots> = 2 ^ p * u"
  proof -
    have "ilog2 x + 1 = int p + (ilog2 x - (int p - 1))" by simp
    then show ?thesis unfolding u_def by (simp only: pow2_add) (simp add: pow2_nat)
  qed
  finally have "x / u \<le> 2 ^ p" using u by (simp add: pos_divide_le_eq less_imp_le)
  then have "x / u \<le> of_int (2 ^ p)" by simp
  then have "rne (x / u) \<le> 2 ^ p" by (rule rne_le)
  with k0 r show ?thesis unfolding u_def by blast
qed

lemma f32_of_int_exact: "\<bar>n\<bar> \<le> 2 ^ 24 \<Longrightarrow> float_of_int n = of_int n"
  using rnd_exact [of n 24 0] by (simp add: float_of_int_def f32_def)


lemma rnd_ge_pow2:
  assumes "pow2 e \<le> y" "0 < p"
  shows "pow2 e \<le> rnd p y"
proof -
  have y: "0 < y" using assms(1) pow2_pos [of e] by linarith
  define ey where "ey = ilog2 y"
  have b: "pow2 ey \<le> y" "y < pow2 (ey + 1)" using ilog2_bounds [OF y] by (simp_all add: ey_def)
  have "pow2 e < pow2 (ey + 1)" using assms(1) b by linarith
  then have ee: "e \<le> ey" by simp
  define u where "u = pow2 (ey - (int p - 1))"
  have u: "0 < u" by (simp add: u_def)
  have r: "rnd p y = of_int (rne (y / u)) * u" using y by (simp add: rnd_def u_def ey_def Let_def)
  obtain p' where p': "p = Suc p'" using assms(2) by (cases p) auto
  have pu: "pow2 ey = 2 ^ p' * u"
  proof -
    have "ey = int p' + (ey - (int p - 1))" by (simp add: p')
    then have "pow2 ey = pow2 (int p') * u" unfolding u_def by (simp only: pow2_add [symmetric])
    then show ?thesis by (simp add: pow2_nat)
  qed
  have "2 ^ p' \<le> y / u" using b(1) u by (simp add: pu pos_le_divide_eq)
  then have "of_int (2 ^ p') \<le> y / u" by simp
  then have "2 ^ p' \<le> rne (y / u)" by (rule rne_ge)
  then have "(of_int (2 ^ p') :: rat) \<le> of_int (rne (y / u))" by (simp only: of_int_le_iff)
  then have "2 ^ p' * u \<le> of_int (rne (y / u)) * u" using u by simp
  then have "pow2 ey \<le> rnd p y" by (simp add: pu r)
  moreover have "pow2 e \<le> pow2 ey" using ee by simp
  ultimately show ?thesis by linarith
qed

lemma rnd_idem:
  assumes "0 < x" "0 < p"
  shows "rnd p (rnd p x) = rnd p x"
proof -
  obtain k where k: "rnd p x = of_int k * pow2 (ilog2 x - (int p - 1))" "0 \<le> k" "k \<le> 2 ^ p"
    using rnd_form [OF assms(1), of p] by blast
  have "\<bar>k\<bar> \<le> 2 ^ p" using k by simp
  then show ?thesis unfolding k(1) using assms(2) by (rule rnd_exact)
qed

text \<open>The quotient of the request by the package size, as the source computes it.\<close>

lemma quantize_core:
  fixes a b :: int
  assumes a0: "0 < a" and a1: "a < 2 ^ 23" and b0: "0 < b" and b1: "b \<le> 2 ^ 24"
  shows "a mod b = 0 \<Longrightarrow>
           fdiv32 (float_of_int a) (float_of_int b) = of_int (a div b)"
    and "0 < a mod b \<Longrightarrow>
           of_int (a div b) < fdiv32 (float_of_int a) (float_of_int b)
           \<and> fdiv32 (float_of_int a) (float_of_int b) < of_int (a div b) + 1"
    and "0 < a mod b \<Longrightarrow> 2 * (a mod b) < b \<Longrightarrow>
           \<bar>fsub32 (fdiv32 (float_of_int a) (float_of_int b)) (float_of_int (a div b))\<bar>
           < \<bar>fsub32 (float_of_int (a div b + 1)) (fdiv32 (float_of_int a) (float_of_int b))\<bar>"
    and "0 < a mod b \<Longrightarrow> b < 2 * (a mod b) \<Longrightarrow>
           \<bar>fsub32 (float_of_int (a div b + 1)) (fdiv32 (float_of_int a) (float_of_int b))\<bar>
           < \<bar>fsub32 (fdiv32 (float_of_int a) (float_of_int b)) (float_of_int (a div b))\<bar>"
    and "0 < a mod b \<Longrightarrow> 2 * (a mod b) = b \<Longrightarrow>
           \<bar>fsub32 (fdiv32 (float_of_int a) (float_of_int b)) (float_of_int (a div b))\<bar>
           = \<bar>fsub32 (float_of_int (a div b + 1)) (fdiv32 (float_of_int a) (float_of_int b))\<bar>"
proof -
  define m where "m = a div b"
  define r where "r = a mod b"
  define x where "x = (of_int a :: rat) / of_int b"
  define X where "X = f32 x"
  have br: "(0::rat) < of_int b" using b0 by simp
  have ar: "(0::rat) < of_int a" using a0 by simp
  have x0: "0 < x" using ar br by (simp add: x_def)
  have m0: "0 \<le> m" using a0 b0 by (simp add: m_def pos_imp_zdiv_nonneg_iff)
  have ma: "m \<le> a"
  proof -
    have "m * 1 \<le> m * b" using m0 b0 by (intro mult_left_mono) simp_all
    also have "\<dots> \<le> a" using b0 by (simp add: m_def r_def)
        (metis mult.commute mult_div_mod_eq pos_mod_sign le_add_same_cancel1)
    finally show ?thesis by simp
  qed
  have r0: "0 \<le> r" and rb: "r < b" using b0 by (simp_all add: r_def)
  have amr: "a = m * b + r" by (simp add: m_def r_def)
  have xmr: "x = of_int m + of_int r / of_int b"
    using br by (simp add: x_def amr field_simps)
  have fa: "float_of_int a = of_int a" using a0 a1 by (intro f32_of_int_exact) simp
  have fb: "float_of_int b = of_int b" using b0 b1 by (intro f32_of_int_exact) simp
  have fm: "float_of_int m = of_int m" using m0 ma a1 by (intro f32_of_int_exact) simp
  have fm1: "float_of_int (m + 1) = of_int (m + 1)" using m0 ma a1 by (intro f32_of_int_exact) simp
  have XX: "fdiv32 (float_of_int a) (float_of_int b) = X"
    by (simp add: fdiv32_def fa fb X_def x_def)
  have a23: "(of_int a :: rat) < 2 ^ 23"
  proof -
    have "(of_int a :: rat) < of_int (2 ^ 23)" using a1 by (simp only: of_int_less_iff)
    then show ?thesis by simp
  qed
  have close: "\<bar>X - x\<bar> < 1 / (2 * of_int b)"
  proof -
    have "\<bar>X - x\<bar> \<le> \<bar>x\<bar> / 2 ^ 24"
      unfolding X_def f32_def using x0 by (intro rnd_error_rel) simp
    also have "\<dots> = of_int a / (of_int b * 2 ^ 24)"
      using ar br by (simp add: x_def abs_of_pos)
    also have "\<dots> < 2 ^ 23 / (of_int b * 2 ^ 24)"
      using a23 br by (intro divide_strict_right_mono) simp_all
    also have "\<dots> = 1 / (2 * of_int b)" by simp
    finally show ?thesis .
  qed
  have Xpos: "0 < X"
  proof -
    have "1 / of_int b \<le> x"
    proof -
      have "(of_int 1 :: rat) \<le> of_int a" using a0 by simp
      then show ?thesis using br by (simp add: x_def divide_right_mono)
    qed
    moreover have "1 / (2 * of_int b) < 1 / (of_int b :: rat)" using br by (simp add: field_simps)
    ultimately show ?thesis using close by (simp add: abs_less_iff)
  qed
  show c1: "a mod b = 0 \<Longrightarrow> fdiv32 (float_of_int a) (float_of_int b) = of_int (a div b)"
  proof -
    assume "a mod b = 0"
    then have "x = of_int m" by (simp add: xmr r_def)
    then have "X = float_of_int m" by (simp add: X_def float_of_int_def)
    then show ?thesis using fm by (simp add: XX m_def)
  qed
  have rfrac: "0 < r \<Longrightarrow> 1 / of_int b \<le> of_int r / (of_int b :: rat)
                 \<and> of_int r / (of_int b :: rat) \<le> 1 - 1 / of_int b"
  proof -
    assume r: "0 < r"
    have "(of_int 1 :: rat) \<le> of_int r" using r by simp
    moreover have "(of_int r :: rat) \<le> of_int (b - 1)" using rb by simp
    ultimately show ?thesis using br by (simp add: field_simps)
  qed
  have half: "0 < (1 / (2 * of_int b) :: rat)" "2 * (1 / (2 * of_int b)) = 1 / (of_int b :: rat)"
    using br by simp_all
  have c2': "0 < r \<Longrightarrow> of_int m < X \<and> X < of_int m + 1"
  proof -
    assume r: "0 < r"
    note f = rfrac [OF r]
    show ?thesis using close f half unfolding xmr abs_less_iff by linarith
  qed
  show "0 < a mod b \<Longrightarrow>
           of_int (a div b) < fdiv32 (float_of_int a) (float_of_int b)
           \<and> fdiv32 (float_of_int a) (float_of_int b) < of_int (a div b) + 1"
    using c2' by (simp add: XX m_def r_def)
  text \<open>Both error terms are computed without rounding once the quotient is at least 1/2.\<close>
  have exact_sub: "fsub32 X (float_of_int m) = X - of_int m
                 \<and> fsub32 (float_of_int (m + 1)) X = of_int (m + 1) - X"
    if r: "0 < r" and xh: "1 / 2 \<le> x"
  proof -
    define e where "e = ilog2 x"
    have eb: "pow2 e \<le> x" "x < pow2 (e + 1)" using ilog2_bounds [OF x0] by (simp_all add: e_def)
    have "pow2 (- 1) < pow2 (e + 1)" using xh eb(2) by (simp add: pow2_def)
    then have e_lo: "- 1 \<le> e" by simp
    have "x < 2 ^ 23"
    proof -
      have "x \<le> of_int a" 
      proof -
        have "(of_int 1 :: rat) \<le> of_int b" using b0 by simp
        then show ?thesis using ar br by (simp add: x_def pos_divide_le_eq mult_le_cancel_left1)
      qed
      with a23 show ?thesis by linarith
    qed
    then have "pow2 e < pow2 23" using eb(1) by (simp add: pow2_def)
    then have e_hi: "e \<le> 22" by simp
    obtain k where k: "X = of_int k * pow2 (e - 23)" "0 \<le> k" "k \<le> 2 ^ 24"
      using rnd_form [OF x0, of 24] by (auto simp: X_def f32_def e_def)
    define n where "n = nat (23 - e)"
    have n: "1 \<le> n" "n \<le> 24" using e_lo e_hi by (simp_all add: n_def)
    have pe: "pow2 (e - 23) = 1 / 2 ^ n" using e_hi by (simp add: pow2_def n_def)
    have two_n: "(2::int) ^ n \<le> 2 ^ 24" using n by (intro power_increasing) simp_all
    have mX: "of_int m = of_int (m * 2 ^ n) * pow2 (e - 23)" by (simp add: pe)
    have m1X: "of_int (m + 1) = of_int ((m + 1) * 2 ^ n) * pow2 (e - 23)" by (simp add: pe)
    note c = c2' [OF r]
    have d1: "X - of_int m = of_int (k - m * 2 ^ n) * pow2 (e - 23)"
      unfolding k(1) pe by (simp add: field_simps)
    have d2: "of_int (m + 1) - X = of_int ((m + 1) * 2 ^ n - k) * pow2 (e - 23)"
      unfolding k(1) pe by (simp add: field_simps)
    have "0 < X - of_int m" "X - of_int m < 1" using c by simp_all
    then have "0 < (of_int (k - m * 2 ^ n) :: rat)" "(of_int (k - m * 2 ^ n) :: rat) < 2 ^ n"
      unfolding d1 pe by (simp_all add: field_simps)
    then have "(of_int 0 :: rat) < of_int (k - m * 2 ^ n)"
      "(of_int (k - m * 2 ^ n) :: rat) < of_int (2 ^ n)" by simp_all
    then have "0 < k - m * 2 ^ n" "k - m * 2 ^ n < 2 ^ n" by (simp_all only: of_int_less_iff)
    then have k1: "\<bar>k - m * 2 ^ n\<bar> \<le> 2 ^ 24" using two_n by simp
    have "0 < of_int (m + 1) - X" "of_int (m + 1) - X < 1" using c by simp_all
    then have "0 < (of_int ((m + 1) * 2 ^ n - k) :: rat)"
      "(of_int ((m + 1) * 2 ^ n - k) :: rat) < 2 ^ n"
      unfolding d2 pe by (simp_all add: field_simps)
    then have "(of_int 0 :: rat) < of_int ((m + 1) * 2 ^ n - k)"
      "(of_int ((m + 1) * 2 ^ n - k) :: rat) < of_int (2 ^ n)" by simp_all
    then have "0 < (m + 1) * 2 ^ n - k" "(m + 1) * 2 ^ n - k < 2 ^ n"
      by (simp_all only: of_int_less_iff)
    then have k2: "\<bar>(m + 1) * 2 ^ n - k\<bar> \<le> 2 ^ 24" using two_n by simp
    have "f32 (X - of_int m) = X - of_int m"
      unfolding d1 f32_def using k1 by (intro rnd_exact) simp_all
    moreover have "f32 (of_int (m + 1) - X) = of_int (m + 1) - X"
      unfolding d2 f32_def using k2 by (intro rnd_exact) simp_all
    ultimately show ?thesis by (simp add: fsub32_def fm fm1)
  qed
  have lt_case: "\<bar>fsub32 X (float_of_int m)\<bar> < \<bar>fsub32 (float_of_int (m + 1)) X\<bar>"
    if r: "0 < r" and rr: "2 * r < b"
  proof -
    have "(of_int (2 * r) :: rat) \<le> of_int (b - 1)" using rr by simp
    then have fr: "of_int r / (of_int b :: rat) \<le> 1 / 2 - 1 / (2 * of_int b)"
      using br by (simp add: field_simps)
    have Xh: "X < of_int m + 1 / 2"
      using close fr unfolding xmr abs_less_iff by linarith
    show ?thesis
    proof (cases "1 / 2 \<le> x")
      case True
      note e = exact_sub [OF r True]
      note c = c2' [OF r]
      show ?thesis using e c Xh by simp
    next
      case False
      have m_zero: "m = 0"
      proof (rule ccontr)
        assume "m \<noteq> 0"
        with m0 have "1 \<le> m" by simp
        then have "(of_int 1 :: rat) \<le> of_int m" by (simp only: of_int_le_iff)
        moreover have "(0::rat) \<le> of_int r / of_int b" using r0 br by simp
        ultimately have "1 \<le> x" unfolding xmr by simp
        with False show False by simp
      qed
      have X_half: "X < 1 / 2" using Xh by (simp add: m_zero)
      have f0: "float_of_int 0 = 0" by (simp add: float_of_int_def f32_def rnd_def)
      have "f32 X = X" unfolding X_def f32_def by (rule rnd_idem [OF x0]) simp
      then have e1: "fsub32 X (float_of_int m) = X"
        by (simp add: fsub32_def m_zero f0)
      have "pow2 (- 1) \<le> 1 - X" using X_half by (simp add: pow2_def)
      then have "pow2 (- 1) \<le> rnd 24 (1 - X)" by (intro rnd_ge_pow2) simp_all
      then have e2: "1 / 2 \<le> fsub32 (float_of_int (m + 1)) X"
        using fm1 by (simp add: fsub32_def m_zero f32_def pow2_def)
      show ?thesis using e1 e2 X_half Xpos by simp
    qed
  qed
  have x_half_of: "1 / 2 \<le> x" if "0 < r" "b \<le> 2 * r"
  proof -
    have "(of_int b :: rat) \<le> of_int (2 * r)" using that by (simp only: of_int_le_iff)
    then have "1 / 2 \<le> of_int r / (of_int b :: rat)" using br by (simp add: field_simps)
    moreover have "(0::rat) \<le> of_int m" using m0 by simp
    ultimately show ?thesis unfolding xmr by linarith
  qed
  have gt_case: "\<bar>fsub32 (float_of_int (m + 1)) X\<bar> < \<bar>fsub32 X (float_of_int m)\<bar>"
    if r: "0 < r" and rr: "b < 2 * r"
  proof -
    have "(of_int (b + 1) :: rat) \<le> of_int (2 * r)" using rr by simp
    then have "(of_int (b + 1) :: rat) / (2 * of_int b) \<le> of_int (2 * r) / (2 * of_int b)"
      using br by (intro divide_right_mono) simp_all
    moreover have "(of_int (b + 1) :: rat) / (2 * of_int b) = 1 / 2 + 1 / (2 * of_int b)"
      using br by (simp add: add_divide_distrib)
    moreover have "(of_int (2 * r) :: rat) / (2 * of_int b) = of_int r / of_int b" by simp
    ultimately have fr: "1 / 2 + 1 / (2 * of_int b) \<le> of_int r / (of_int b :: rat)"
      by simp
    have Xh: "of_int m + 1 / 2 < X"
      using close fr unfolding xmr abs_less_iff by linarith
    have "1 / 2 \<le> x" using x_half_of r rr by simp
    note e = exact_sub [OF r this]
    note c = c2' [OF r]
    show ?thesis using e c Xh by simp
  qed
  have eq_case: "\<bar>fsub32 X (float_of_int m)\<bar> = \<bar>fsub32 (float_of_int (m + 1)) X\<bar>"
    if r: "0 < r" and rr: "2 * r = b"
  proof -
    have "(of_int (2 * r) :: rat) = of_int b" using rr by (simp only: of_int_eq_iff)
    then have fr: "of_int r / (of_int b :: rat) = 1 / 2" using br by (simp add: field_simps)
    have xe: "x = of_int (2 * m + 1) * pow2 (- 1)" unfolding xmr fr by (simp add: pow2_def)
    have "\<bar>2 * m + 1\<bar> \<le> 2 ^ 24" using m0 ma a1 by simp
    then have "X = x" unfolding X_def f32_def xe by (intro rnd_exact) simp_all
    then have Xh: "X = of_int m + 1 / 2" by (simp add: xmr fr)
    have "1 / 2 \<le> x" using x_half_of r rr by simp
    note e = exact_sub [OF r this]
    show ?thesis using e Xh by simp
  qed
  show "0 < a mod b \<Longrightarrow> 2 * (a mod b) < b \<Longrightarrow>
           \<bar>fsub32 (fdiv32 (float_of_int a) (float_of_int b)) (float_of_int (a div b))\<bar>
           < \<bar>fsub32 (float_of_int (a div b + 1)) (fdiv32 (float_of_int a) (float_of_int b))\<bar>"
    using lt_case by (simp add: XX m_def r_def)
  show "0 < a mod b \<Longrightarrow> b < 2 * (a mod b) \<Longrightarrow>
           \<bar>fsub32 (float_of_int (a div b + 1)) (fdiv32 (float_of_int a) (float_of_int b))\<bar>
           < \<bar>fsub32 (fdiv32 (float_of_int a) (float_of_int b)) (float_of_int (a div b))\<bar>"
    using gt_case by (simp add: XX m_def r_def)
  show "0 < a mod b \<Longrightarrow> 2 * (a mod b) = b \<Longrightarrow>
           \<bar>fsub32 (fdiv32 (float_of_int a) (float_of_int b)) (float_of_int (a div b))\<bar>
           = \<bar>fsub32 (float_of_int (a div b + 1)) (fdiv32 (float_of_int a) (float_of_int b))\<bar>"
    using eq_case by (simp add: XX m_def r_def)
qed


lemma FulfillLine_nearest_eq_spec:
  fixes req upp :: int
  assumes a0: "0 < req" and a1: "req < 2 ^ 23" and b0: "1 \<le> upp" and b1: "upp \<le> 2 ^ 24"
  shows "FulfillLine_nearest R g req upp = spec_nearest R g req upp"
proof -
  define m where "m = req div upp"
  define r where "r = req mod upp"
  define x where "x = (of_int req :: rat) / of_int upp"
  have bpos: "0 < upp" using b0 by simp
  have br: "(0::rat) < of_int upp" using bpos by simp
  have r0: "0 \<le> r" and rb: "r < upp" using bpos by (simp_all add: r_def)
  have amr: "req = m * upp + r" by (simp add: m_def r_def)
  have xmr: "x = of_int m + of_int r / of_int upp"
    using br by (simp add: x_def amr field_simps)
  note q = quantize_core [OF a0 a1 bpos b1, folded m_def r_def]
  have sfl: "\<lfloor>x\<rfloor> = m" by (simp add: x_def m_def floor_divide_of_int_eq)
  show ?thesis
  proof (cases "r = 0")
    case True
    have X: "fdiv32 (float_of_int req) (float_of_int upp) = of_int m" using q(1) True by simp
    have "x = of_int m" using True by (simp add: xmr)
    then have sce: "\<lceil>x\<rceil> = m" by simp
    show ?thesis
      unfolding FulfillLine_nearest_def spec_nearest_def Let_def X x_def [symmetric] sfl sce
      by simp
  next
    case False
    with r0 have rpos: "0 < r" by simp
    have "(of_int 1 :: rat) \<le> of_int r" using rpos by simp
    then have f1: "0 < of_int r / (of_int upp :: rat)" using br by simp
    have "(of_int r :: rat) < of_int upp" using rb by (simp only: of_int_less_iff)
    then have f2: "of_int r / (of_int upp :: rat) < 1" using br by simp
    have sce: "\<lceil>x\<rceil> = m + 1"
      using f1 f2 by (intro ceiling_unique) (simp_all add: xmr)
    have Xb: "of_int m < fdiv32 (float_of_int req) (float_of_int upp)"
      "fdiv32 (float_of_int req) (float_of_int upp) < of_int m + 1"
      using q(2) rpos by simp_all
    have cfl: "\<lfloor>fdiv32 (float_of_int req) (float_of_int upp)\<rfloor> = m"
      using Xb by (intro floor_unique) simp_all
    have cce: "\<lceil>fdiv32 (float_of_int req) (float_of_int upp)\<rceil> = m + 1"
      using Xb by (intro ceiling_unique) simp_all
    have se1: "\<bar>x - of_int m\<bar> = of_int r / of_int upp"
    proof -
      have "x - of_int m = of_int r / of_int upp" by (simp add: xmr)
      then show ?thesis using f1 by (simp only: abs_of_pos)
    qed
    have se2: "\<bar>of_int (m + 1) - x\<bar> = 1 - of_int r / of_int upp"
    proof -
      have "of_int (m + 1) - x = 1 - of_int r / of_int upp" by (simp add: xmr)
      moreover have "0 < 1 - of_int r / (of_int upp :: rat)" using f2 by simp
      ultimately show ?thesis by (simp only: abs_of_pos)
    qed
    have two: "(of_int r / (of_int upp :: rat) < 1 - of_int r / of_int upp) = (2 * r < upp)"
      "(1 - of_int r / (of_int upp :: rat) < of_int r / of_int upp) = (upp < 2 * r)"
    proof -
      have "(of_int r / (of_int upp :: rat) < 1 - of_int r / of_int upp)
              = ((of_int (2 * r) :: rat) < of_int upp)"
        using br by (simp add: field_simps)
      then show "(of_int r / (of_int upp :: rat) < 1 - of_int r / of_int upp) = (2 * r < upp)"
        by (simp only: of_int_less_iff)
      have "(1 - of_int r / (of_int upp :: rat) < of_int r / of_int upp)
              = ((of_int upp :: rat) < of_int (2 * r))"
        using br by (simp add: field_simps)
      then show "(1 - of_int r / (of_int upp :: rat) < of_int r / of_int upp) = (upp < 2 * r)"
        by (simp only: of_int_less_iff)
    qed
    consider (lt) "2 * r < upp" | (gt) "upp < 2 * r" | (eq) "2 * r = upp" by linarith
    then show ?thesis
    proof cases
      case lt
      note c = q(3) [OF rpos lt]
      show ?thesis
        unfolding FulfillLine_nearest_def spec_nearest_def Let_def x_def [symmetric] sfl sce cfl cce
          se1 se2 two
        using c lt by simp
    next
      case gt
      note c = q(4) [OF rpos gt]
      show ?thesis
        unfolding FulfillLine_nearest_def spec_nearest_def Let_def x_def [symmetric] sfl sce cfl cce
          se1 se2 two
        using c gt by simp
    next
      case eq
      note c = q(5) [OF rpos eq]
      show ?thesis
        unfolding FulfillLine_nearest_def spec_nearest_def Let_def x_def [symmetric] sfl sce cfl cce
          se1 se2 two
        using c eq by simp
    qed
  qed
qed



lemma FulfillLine_jitter_eq_spec: "FulfillLine_jitter R g c = spec_jitter R g c"
  by (auto simp: FulfillLine_jitter_def spec_jitter_def Let_def case_prod_beta max_def)

lemma spec_nearest_nonneg:
  assumes "0 < req" "0 < upp"
  shows "0 \<le> fst (spec_nearest R g req upp)"
proof -
  have "(0::rat) \<le> of_int req / of_int upp" using assms by simp
  then have f: "0 \<le> \<lfloor>(of_int req :: rat) / of_int upp\<rfloor>" by simp
  then have c: "0 \<le> \<lceil>(of_int req :: rat) / of_int upp\<rceil>"
    using floor_le_ceiling [of "(of_int req :: rat) / of_int upp"] by linarith
  show ?thesis
    using f c by (simp add: spec_nearest_def Let_def case_prod_beta)
qed

lemma spec_jitter_ge_1: "0 \<le> c \<Longrightarrow> 1 \<le> fst (spec_jitter R g c)"
  by (auto simp: spec_jitter_def Let_def case_prod_beta max_def)

lemma FulfillLine_chosen_eq_spec:
  assumes "0 < req" and "req < 2 ^ 23" and "1 \<le> upp" and "upp \<le> 2 ^ 24"
  shows "FulfillLine_chosen R g req upp = spec_chosen R g req upp"
  by (simp add: FulfillLine_chosen_def spec_chosen_def FulfillLine_nearest_eq_spec [OF assms]
      FulfillLine_jitter_eq_spec)

lemma spec_chosen_ge_1:
  assumes "0 < req" "0 < upp"
  shows "1 \<le> fst (spec_chosen R g req upp)"
proof -
  obtain c g1 where n: "spec_nearest R g req upp = (c, g1)" by fastforce
  have "0 \<le> c" using spec_nearest_nonneg [OF assms, of R g] n by simp
  then show ?thesis by (simp add: spec_chosen_def n spec_jitter_ge_1)
qed


section \<open>Quantisation\<close>

text \<open>
  C2, amended: for every order line that asks for more than 0 and fewer than \<open>2^23\<close>
  (8388608) units and every product with \<open>unitsPerPackage\<close> between 1 and \<open>2^24\<close>
  (every normalised product: at most 1000), \<open>FulfillLine\<close> sets \<open>chosenPackages\<close> by
  the documented policy computed with the exact quotient (nearest of floor and ceiling,
  the tie coin on an exact tie, the perturbation by one package when the generator's
  Bernoulli(0.35) draw is true, in the direction of a second coin, never below 0, and 1
  in place of 0), consuming the same draws; \<open>deliveredPackages\<close> is the minimum of
  \<open>chosenPackages\<close> and the packages in stock before the call, so it exceeds neither,
  and \<open>deliveredUnits = deliveredPackages * unitsPerPackage\<close>.
\<close>

theorem FulfillLine_policy:
  assumes "0 < requestedUnits line" and "requestedUnits line < 2 ^ 23"
    and "1 \<le> unitsPerPackage pc" and "unitsPerPackage pc \<le> 2 ^ 24"
  shows "case FulfillLine iv line pc R g st of (line', iv', g', st') \<Rightarrow>
      (chosenPackages line', g') = spec_chosen R g (requestedUnits line) (unitsPerPackage pc)
    \<and> 1 \<le> chosenPackages line'
    \<and> deliveredPackages line' = min (chosenPackages line') (TotalPackages iv (productId line))
    \<and> deliveredPackages line' \<le> chosenPackages line'
    \<and> deliveredPackages line' \<le> TotalPackages iv (productId line)
    \<and> deliveredUnits line' = deliveredPackages line' * unitsPerPackage pc"
proof -
  obtain c g1 where c: "FulfillLine_chosen R g (requestedUnits line) (unitsPerPackage pc) = (c, g1)"
    by fastforce
  have s: "spec_chosen R g (requestedUnits line) (unitsPerPackage pc) = (c, g1)"
    using FulfillLine_chosen_eq_spec [OF assms, of R g] c by simp
  have "1 \<le> c" using spec_chosen_ge_1 [of "requestedUnits line" "unitsPerPackage pc" R g] assms s
    by simp
  then show ?thesis
    using assms by (simp add: FulfillLine_def c s Let_def case_prod_beta)
qed


section \<open>Capacity\<close>

lemma foldl_packages_append:
  "foldl (\<lambda>s b. s + packages b) a (q @ [b]) = foldl (\<lambda>s b. s + packages b) a q + packages b"
  by simp

lemma TotalPackages_Receive:
  "TotalPackages (Receive iv pid pk pc) pid
     = TotalPackages iv pid + (if pid_ok pid iv \<and> 0 < pk then pk else 0)"
proof (cases "pid_ok pid iv \<and> 0 < pk")
  case True
  then have "nat pid < length iv" unfolding pid_ok_def by linarith
  with True show ?thesis by (simp add: TotalPackages_def Receive_def pid_ok_def Let_def)
next
  case False
  then show ?thesis by (auto simp: TotalPackages_def Receive_def pid_ok_def)
qed

lemma int_of_float_of_int [simp]: "int_of_float (of_int z) = z"
  by (simp add: int_of_float_def)

lemma f32_7_10: "f32 (7 / 10) < 71 / 100" "0 < f32 (3 / 10)" "f32 (3 / 10) \<le> f32 (7 / 10)"
  by code_simp+

lemma init_stock_le:
  assumes c0: "0 \<le> cap" and c1: "cap \<le> 5000" and f0: "0 \<le> f" and f1: "f \<le> f32 (7 / 10)"
  shows "int_of_float (round_away (fmul32 (float_of_int cap) f)) \<le> cap"
proof -
  have fc: "float_of_int cap = of_int cap" using c0 c1 by (intro f32_of_int_exact) simp
  define y where "y = (of_int cap :: rat) * f"
  define P where "P = rnd 24 y"
  have y0: "0 \<le> y" using c0 f0 by (simp add: y_def)
  have cr: "(0::rat) \<le> of_int cap" using c0 by simp
  have "y \<le> of_int cap * (71 / 100)"
    unfolding y_def using f1 f32_7_10(1) cr by (intro mult_left_mono) simp_all
  then have y1: "y \<le> of_int cap * (71 / 100)" .
  have Pb: "0 \<le> P \<and> P \<le> y + y / 2 ^ 24"
  proof (cases "y = 0")
    case True
    then show ?thesis by (simp add: P_def rnd_def)
  next
    case False
    have "\<bar>P - y\<bar> \<le> \<bar>y\<bar> / 2 ^ 24" unfolding P_def by (rule rnd_error_rel [OF False])
    then have a: "\<bar>P - y\<bar> \<le> y / 2 ^ 24" using y0 by (simp only: abs_of_nonneg)
    have b: "y / 2 ^ 24 \<le> y" using y0 by (simp add: field_simps)
    show ?thesis using a b unfolding abs_le_iff by linarith
  qed
  have "y / 2 ^ 24 \<le> y / 100" using y0 by (intro divide_left_mono) simp_all
  then have "P \<le> y + y / 100" using Pb by linarith
  also have "\<dots> \<le> of_int cap * (71 / 100) + of_int cap * (71 / 100) / 100"
    using y1 by (intro add_mono divide_right_mono) simp_all
  also have "\<dots> \<le> of_int cap" using cr by (simp add: field_simps)
  finally have Pc: "P \<le> of_int cap" .
  have "P + 1 / 2 < of_int (cap + 1)" using Pc by simp
  then have "\<lfloor>P + 1 / 2\<rfloor> < cap + 1" by (simp only: floor_less_iff)
  then have "\<lfloor>P + 1 / 2\<rfloor> \<le> cap" by simp
  moreover have "round_away P = of_int \<lfloor>P + 1 / 2\<rfloor>" using Pb by (simp add: round_away_def)
  ultimately show ?thesis
    by (simp add: fmul32_def f32_def fc y_def [symmetric] P_def [symmetric])
qed

lemma ClampProduct_capacity:
  "capacityPackages (ClampProduct p) = clamp (capacityPackages p) 0 5000"
  by (simp add: ClampProduct_def Let_def)

lemma clamp_bounds: "lo \<le> hi \<Longrightarrow> lo \<le> clamp v lo hi \<and> clamp v lo hi \<le> hi"
  by (auto simp: clamp_def)


text \<open>
  C2, as stated, fails where single precision cannot hold the request: a request of
  16777217 units of a product packed by 1 is converted to the \<open>float\<close> 16777216, whose
  floor and ceiling are 16777216, so with no perturbation (the generator's coin is false
  here) the source chooses 16777216 packages, where the policy with the exact quotient
  chooses 16777217.
\<close>

theorem FulfillLine_policy_counterexample:
  "chosenPackages (fst (FulfillLine [[]] (OrderLine0\<lparr>productId := 0, requestedUnits := 16777217\<rparr>)
         (ProductConfig0\<lparr>unitsPerPackage := 1\<rparr>) demo_rng [] DayStats0)) = 16777216
   \<and> fst (spec_chosen demo_rng [] 16777217 1) = 16777217"
  by code_simp

theorem FulfillLine_policy_witness:
  "0 < requestedUnits (OrderLine0\<lparr>productId := 0, requestedUnits := 25\<rparr>)
   \<and> requestedUnits (OrderLine0\<lparr>productId := 0, requestedUnits := 25\<rparr>) < 2 ^ 23
   \<and> 1 \<le> unitsPerPackage ProductConfig0 \<and> unitsPerPackage ProductConfig0 \<le> 2 ^ 24
   \<and> FulfillLine [[\<lparr> packages = 5, daysLeft = 14, discounted = False, unitPrice = 1 \<rparr>]]
         (OrderLine0\<lparr>productId := 0, requestedUnits := 25\<rparr>) ProductConfig0
         demo_rng [DBool True, DBool False] DayStats0
       = (\<lparr> productId = 0, requestedUnits = 25, chosenPackages = 2, deliveredPackages = 2,
             deliveredUnits = 20 \<rparr>,
          [[\<lparr> packages = 3, daysLeft = 14, discounted = False, unitPrice = 1 \<rparr>]],
          [],
          \<lparr> revenue = 20, discountLoss = 0, writeOffLoss = 0, totalSoldUnits = 20,
            totalWriteOffUnits = 0 \<rparr>)
   \<and> spec_chosen demo_rng [DBool True, DBool False] 25 10 = (2, [])"
proof -
  have h: "0 < requestedUnits (OrderLine0\<lparr>productId := 0, requestedUnits := 25\<rparr>)"
    "requestedUnits (OrderLine0\<lparr>productId := 0, requestedUnits := 25\<rparr>) < 2 ^ 23"
    "1 \<le> unitsPerPackage ProductConfig0" "unitsPerPackage ProductConfig0 \<le> 2 ^ 24"
    by (simp_all add: ProductConfig0_def)
  have e: "FulfillLine [[\<lparr> packages = 5, daysLeft = 14, discounted = False, unitPrice = 1 \<rparr>]]
         (OrderLine0\<lparr>productId := 0, requestedUnits := 25\<rparr>) ProductConfig0
         demo_rng [DBool True, DBool False] DayStats0
       = (\<lparr> productId = 0, requestedUnits = 25, chosenPackages = 2, deliveredPackages = 2,
             deliveredUnits = 20 \<rparr>,
          [[\<lparr> packages = 3, daysLeft = 14, discounted = False, unitPrice = 1 \<rparr>]],
          [],
          \<lparr> revenue = 20, discountLoss = 0, writeOffLoss = 0, totalSoldUnits = 20,
            totalWriteOffUnits = 0 \<rparr>)"
    by code_simp
  have u: "unitsPerPackage ProductConfig0 = 10" by (simp add: ProductConfig0_def)
  have "spec_chosen demo_rng [DBool True, DBool False] 25 10 = (2, [])"
    using FulfillLine_policy [OF h,
        where iv = "[[\<lparr> packages = 5, daysLeft = 14, discounted = False, unitPrice = 1 \<rparr>]]"
          and R = demo_rng and g = "[DBool True, DBool False]" and st = DayStats0]
    by (simp add: e u)
  with h e show ?thesis by simp
qed


section \<open>Expiry\<close>






section \<open>Invariants of the stock\<close>

lemma fold_inv:
  assumes "\<And>x s. P s \<Longrightarrow> P (f x s)" and "P s"
  shows "P (fold f xs s)"
  using assms(2) by (induction xs arbitrary: s) (simp_all add: assms(1))

lemma fold_inv2:
  assumes "\<And>x a s. P s \<Longrightarrow> P (snd (f x (a, s)))" and "P s"
  shows "P (snd (fold f xs (a, s)))"
  using assms(2)
proof (induction xs arbitrary: a s)
  case Nil
  then show ?case by simp
next
  case (Cons x xs)
  obtain a' s' where e: "f x (a, s) = (a', s')" by fastforce
  have "P s'" using assms(1) [OF Cons.prems, of x a] e by simp
  from Cons.IH [OF this, of a'] e show ?case by simp
qed

lemma fold_inv3:
  assumes "\<And>x a b s. P s \<Longrightarrow> P (snd (snd (f x (a, b, s))))" and "P s"
  shows "P (snd (snd (fold f xs (a, b, s))))"
  using assms(2)
proof (induction xs arbitrary: a b s)
  case Nil
  then show ?case by simp
next
  case (Cons x xs)
  obtain a' b' s' where e: "f x (a, b, s) = (a', b', s')" by (metis prod_cases3)
  have "P s'" using assms(1) [OF Cons.prems, of x a b] e by simp
  from Cons.IH [OF this, of a' b'] e show ?case by simp
qed

lemma queue_closedD:
  assumes "queue_closed Q"
  shows "Q [] ProductConfig0"
    and "Q [] (ClampProduct p)"
    and "Q q p \<Longrightarrow> map packages q' = map packages q \<Longrightarrow> map daysLeft q' = map daysLeft q
           \<Longrightarrow> Q q' p"
    and "Q q p \<Longrightarrow> Q q (ClampProduct p)"
    and "Q q p \<Longrightarrow> 0 < pk \<Longrightarrow> foldl (\<lambda>s b. s + packages b) 0 q + pk \<le> capacityPackages p
           \<Longrightarrow> Q (q @ [\<lparr> packages = pk, daysLeft = shelfLifeDays p, discounted = d,
                           unitPrice = u \<rparr>]) p"
    and "Q q p \<Longrightarrow> Q (map (\<lambda>b. b\<lparr>daysLeft := daysLeft b - 1\<rparr>) q) p"
    and "Q (pre @ q) p \<Longrightarrow> Q q p"
    and "Q (b # q) p \<Longrightarrow> 0 < k \<Longrightarrow> k \<le> packages b \<Longrightarrow> Q (b\<lparr>packages := k\<rparr> # q) p"
  using assms unfolding queue_closed_def by blast+

lemma inv_update:
  assumes "list_all2 Q iv ps" and "i < length iv \<Longrightarrow> Q q (ps ! i)"
  shows "list_all2 Q (iv[i := q]) ps"
proof (cases "i < length iv")
  case True
  then have "list_all2 Q (iv[i := q]) (ps[i := ps ! i])"
    using assms by (intro list_all2_update_cong) simp_all
  then show ?thesis by simp
next
  case False
  then show ?thesis using assms(1) by (simp add: list_update_beyond)
qed

lemma inv_nth: "list_all2 Q iv ps \<Longrightarrow> i < length iv \<Longrightarrow> Q (iv ! i) (ps ! i)"
  by (simp add: list_all2_nthD)

lemma inv_same_shape:
  assumes i: "list_all2 Q iv ps"
    and c: "\<And>q q' p. Q q p \<Longrightarrow> map packages q' = map packages q
                \<Longrightarrow> map daysLeft q' = map daysLeft q \<Longrightarrow> Q q' p"
    and e1: "map (map packages) iv' = map (map packages) iv"
    and e2: "map (map daysLeft) iv' = map (map daysLeft) iv"
  shows "list_all2 Q iv' ps"
proof -
  have l: "length iv' = length iv" using arg_cong [OF e1, of length] by simp
  have "Q (iv' ! n) (ps ! n)" if n: "n < length iv" for n
  proof -
    have "map (map packages) iv' ! n = map (map packages) iv ! n" by (simp only: e1)
    then have a: "map packages (iv' ! n) = map packages (iv ! n)" using n l by simp
    have "map (map daysLeft) iv' ! n = map (map daysLeft) iv ! n" by (simp only: e2)
    then have b: "map daysLeft (iv' ! n) = map daysLeft (iv ! n)" using n l by simp
    show ?thesis by (rule c [OF inv_nth [OF i n] a b])
  qed
  then show ?thesis using i l by (simp add: list_all2_conv_all_nth)
qed

lemma shape_update:
  assumes "i < length iv \<Longrightarrow> map f q = map f (iv ! i)"
  shows "map (map f) (iv[i := q]) = map (map f) iv"
proof (cases "i < length iv")
  case True
  then show ?thesis using assms by (simp add: map_update list_update_same_conv)
next
  case False
  then show ?thesis by (simp add: list_update_beyond)
qed

lemma inv_Receive:
  assumes c: "queue_closed Q" and i: "list_all2 Q iv ps"
    and f: "pid_ok pid iv \<Longrightarrow> 0 < pk
              \<Longrightarrow> TotalPackages iv pid + pk \<le> capacityPackages (ps ! nat pid)"
  shows "list_all2 Q (Receive iv pid pk (ps ! nat pid)) ps"
proof (cases "pid_ok pid iv \<and> 0 < pk")
  case True
  then have n: "nat pid < length iv" unfolding pid_ok_def by linarith
  have t: "TotalPackages iv pid = foldl (\<lambda>s b. s + packages b) 0 (iv ! nat pid)"
    using True by (simp add: TotalPackages_def pid_ok_def)
  have "foldl (\<lambda>s b. s + packages b) 0 (iv ! nat pid) + pk \<le> capacityPackages (ps ! nat pid)"
    using f True t by simp
  then have "Q (iv ! nat pid @ [\<lparr> packages = pk, daysLeft = shelfLifeDays (ps ! nat pid),
                  discounted = False, unitPrice = basePricePerUnit (ps ! nat pid) \<rparr>])
               (ps ! nat pid)"
    using True by (intro queue_closedD(5) [OF c inv_nth [OF i n]]) simp_all
  then have "list_all2 Q (iv[nat pid := iv ! nat pid @ [\<lparr> packages = pk,
                  daysLeft = shelfLifeDays (ps ! nat pid),
                  discounted = False, unitPrice = basePricePerUnit (ps ! nat pid) \<rparr>]]) ps"
    by (intro inv_update [OF i])
  then show ?thesis using True by (simp add: Receive_def pid_ok_def Let_def)
next
  case False
  then have "Receive iv pid pk (ps ! nat pid) = iv" by (auto simp: Receive_def pid_ok_def)
  then show ?thesis using i by simp
qed

lemma inv_DecrementShelfLife:
  assumes c: "queue_closed Q" and i: "list_all2 Q iv ps"
  shows "list_all2 Q (DecrementShelfLife iv) ps"
  unfolding DecrementShelfLife_def list_all2_map1
  by (rule list_all2_mono [OF i]) (rule queue_closedD(6) [OF c])

lemma WriteOffLoop_suffix: "\<exists>pre. dq = pre @ fst (WriteOffLoop dq w)"
proof (induction dq arbitrary: w)
  case Nil
  show ?case by simp
next
  case (Cons b dq)
  show ?case
  proof (cases "daysLeft b \<le> 0")
    case True
    obtain pre where "dq = pre @ fst (WriteOffLoop dq (w + packages b))"
      using Cons [of "w + packages b"] by blast
    then have "b # dq = (b # pre) @ fst (WriteOffLoop (b # dq) w)" using True by simp
    then show ?thesis by blast
  next
    case False
    then have "b # dq = [] @ fst (WriteOffLoop (b # dq) w)" by simp
    then show ?thesis by blast
  qed
qed

lemma WriteOffExpired_wh:
  "fst (snd (WriteOffExpired iv pid pc st))
     = (if pid_ok pid iv then iv[nat pid := fst (WriteOffLoop (iv ! nat pid) 0)] else iv)"
  by (auto simp: WriteOffExpired_def pid_ok_def Let_def split: prod.splits)

lemma inv_WriteOffExpired:
  assumes c: "queue_closed Q" and i: "list_all2 Q iv ps"
  shows "list_all2 Q (fst (snd (WriteOffExpired iv pid pc st))) ps"
proof (cases "pid_ok pid iv")
  case True
  define X where "X = fst (WriteOffLoop (iv ! nat pid) 0)"
  obtain pre where p: "iv ! nat pid = pre @ X"
    using WriteOffLoop_suffix unfolding X_def by blast
  have "Q X (ps ! nat pid)" if n: "nat pid < length iv"
    using inv_nth [OF i n] unfolding p by (rule queue_closedD(7) [OF c])
  then have "list_all2 Q (iv[nat pid := X]) ps" by (intro inv_update [OF i])
  then show ?thesis using True by (simp add: WriteOffExpired_wh X_def)
next
  case False
  then show ?thesis using i by (simp add: WriteOffExpired_wh)
qed

lemma DiscountLoop_shape:
  "map packages (fst (DiscountLoop pc dq a)) = map packages dq"
  "map daysLeft (fst (DiscountLoop pc dq a)) = map daysLeft dq"
  by (induction dq arbitrary: a) (simp_all add: case_prod_beta)

lemma ApplyDiscountIfNeeded_wh:
  "snd (ApplyDiscountIfNeeded iv pid pc)
     = (if pid_ok pid iv then iv[nat pid := fst (DiscountLoop pc (iv ! nat pid) 0)] else iv)"
  by (auto simp: ApplyDiscountIfNeeded_def pid_ok_def split: prod.splits)

lemma inv_ApplyDiscountIfNeeded:
  assumes c: "queue_closed Q" and i: "list_all2 Q iv ps"
  shows "list_all2 Q (snd (ApplyDiscountIfNeeded iv pid pc)) ps"
proof (cases "pid_ok pid iv")
  case True
  have "Q (fst (DiscountLoop pc (iv ! nat pid) 0)) (ps ! nat pid)" if n: "nat pid < length iv"
    by (rule queue_closedD(3) [OF c inv_nth [OF i n]]) (simp_all add: DiscountLoop_shape)
  then have "list_all2 Q (iv[nat pid := fst (DiscountLoop pc (iv ! nat pid) 0)]) ps"
    by (intro inv_update [OF i])
  then show ?thesis using True by (simp add: ApplyDiscountIfNeeded_wh)
next
  case False
  then show ?thesis using i by (simp add: ApplyDiscountIfNeeded_wh)
qed

lemma RepriceBatches_shape:
  "map (map packages) (RepriceBatches iv pid pc) = map (map packages) iv"
  "map (map daysLeft) (RepriceBatches iv pid pc) = map (map daysLeft) iv"
proof -
  have m: "map packages (map (\<lambda>b. if discounted b then b\<lparr>unitPrice := discountedPrice pc\<rparr>
                                     else b\<lparr>unitPrice := basePricePerUnit pc\<rparr>) q) = map packages q"
    "map daysLeft (map (\<lambda>b. if discounted b then b\<lparr>unitPrice := discountedPrice pc\<rparr>
                                     else b\<lparr>unitPrice := basePricePerUnit pc\<rparr>) q) = map daysLeft q"
    for q :: "Batch list" by (induction q) simp_all
  show "map (map packages) (RepriceBatches iv pid pc) = map (map packages) iv"
    unfolding RepriceBatches_def by (simp add: shape_update m)
  show "map (map daysLeft) (RepriceBatches iv pid pc) = map (map daysLeft) iv"
    unfolding RepriceBatches_def by (simp add: shape_update m)
qed

declare FulfillLine_drain.simps [simp del]

lemma inv_FulfillLine_drain:
  assumes c: "queue_closed Q"
  shows "Q dq p \<Longrightarrow> Q (fst (FulfillLine_drain r dq pc st)) p"
proof (induction r dq pc st rule: FulfillLine_drain.induct)
  case (1 remaining pc st)
  then show ?case by (simp add: FulfillLine_drain.simps)
next
  case (2 remaining b dq pc st)
  show ?case
  proof (cases "remaining > 0")
    case False
    then show ?thesis using "2.prems" by (simp add: FulfillLine_drain.simps)
  next
    case True
    define take where "take = min remaining (packages b)"
    define b' where "b' = b\<lparr>packages := packages b - take\<rparr>"
    define remaining' where "remaining' = remaining - take"
    define units where "units = take * unitsPerPackage pc"
    define base where "base = fmul64 (double_of_int units) (basePricePerUnit pc)"
    define actual where "actual = fmul64 (double_of_int units) (unitPrice b')"
    define st1 where "st1 = st\<lparr>revenue := fadd64 (revenue st) actual\<rparr>"
    define st2 where "st2 = st1\<lparr>totalSoldUnits := totalSoldUnits st1 + units\<rparr>"
    define st3 where "st3 = (if discounted b'
                  then st2\<lparr>discountLoss := fadd64 (discountLoss st2) (fsub64 base actual)\<rparr>
                  else st2)"
    note defs = take_def b'_def remaining'_def units_def base_def actual_def st1_def st2_def st3_def
    have step: "FulfillLine_drain remaining (b # dq) pc st =
        (if remaining > 0
         then (if packages b' = 0 then FulfillLine_drain remaining' dq pc st3
               else FulfillLine_drain remaining' (b' # dq) pc st3)
         else (b # dq, st))"
      by (subst FulfillLine_drain.simps(2)) (simp only: Let_def defs)
    show ?thesis
    proof (cases "packages b' = 0")
      case z: True
      have e: "FulfillLine_drain remaining (b # dq) pc st = FulfillLine_drain remaining' dq pc st3"
        using True z by (simp add: step)
      have "Q ([b] @ dq) p" using "2.prems" by simp
      then have "Q dq p" by (rule queue_closedD(7) [OF c])
      then show ?thesis
        unfolding e
        by (rule "2.IH"(1) [OF True take_def b'_def remaining'_def units_def base_def actual_def
            st1_def st2_def st3_def z])
    next
      case nz: False
      have e: "FulfillLine_drain remaining (b # dq) pc st
                 = FulfillLine_drain remaining' (b' # dq) pc st3"
        using True nz by (simp add: step)
      have k: "0 < packages b - take" "packages b - take \<le> packages b"
        using nz True by (auto simp: b'_def take_def min_def split: if_splits)
      have "Q (b\<lparr>packages := packages b - take\<rparr> # dq) p"
        by (rule queue_closedD(8) [OF c "2.prems" k])
      then have "Q (b' # dq) p" by (simp add: b'_def)
      then show ?thesis
        unfolding e
        by (rule "2.IH"(2) [OF True take_def b'_def remaining'_def units_def base_def actual_def
            st1_def st2_def st3_def nz])
    qed
  qed
qed

lemma FulfillLine_wh:
  "\<exists>give. fst (snd (FulfillLine iv line pc R g st)) = iv
        \<or> fst (snd (FulfillLine iv line pc R g st))
            = iv[nat (productId line) := fst (FulfillLine_drain give (iv ! nat (productId line)) pc st)]"
proof (cases "requestedUnits line \<le> 0 \<or> unitsPerPackage pc \<le> 0")
  case True
  then have "FulfillLine iv line pc R g st = (line, iv, g, st)" by (auto simp: FulfillLine_def)
  then show ?thesis by simp
next
  case False
  obtain chosen g' where c: "FulfillLine_chosen R g (requestedUnits line) (unitsPerPackage pc) = (chosen, g')"
    by fastforce
  have "fst (snd (FulfillLine iv line pc R g st))
             = iv[nat (productId line) := fst (FulfillLine_drain
                    (min chosen (TotalPackages iv (productId line)))
                    (iv ! nat (productId line)) pc st)]"
    using False by (simp add: FulfillLine_def c Let_def split: prod.splits)
  then show ?thesis by blast
qed

lemma inv_FulfillLine:
  assumes c: "queue_closed Q" and i: "list_all2 Q iv ps"
  shows "list_all2 Q (fst (snd (FulfillLine iv line pc R g st))) ps"
proof -
  obtain give where "fst (snd (FulfillLine iv line pc R g st)) = iv
        \<or> fst (snd (FulfillLine iv line pc R g st))
            = iv[nat (productId line) := fst (FulfillLine_drain give (iv ! nat (productId line)) pc st)]"
    using FulfillLine_wh [of iv line pc R g st] by blast
  moreover have "list_all2 Q (iv[nat (productId line) :=
       fst (FulfillLine_drain give (iv ! nat (productId line)) pc st)]) ps"
    by (intro inv_update [OF i] inv_FulfillLine_drain [OF c] inv_nth [OF i])
  ultimately show ?thesis using i by auto
qed


lemma stock_inv_cong:
  "wh s' = wh s \<Longrightarrow> products s' = products s \<Longrightarrow> stock_inv Q s' = stock_inv Q s"
  by (simp add: stock_inv_def)

lemma ClampAllProducts_shape:
  "map (map packages) (wh (ClampAllProducts s)) = map (map packages) (wh s)"
  "map (map daysLeft) (wh (ClampAllProducts s)) = map (map daysLeft) (wh s)"
  unfolding ClampAllProducts_def
  by (rule fold_frame [where g = "\<lambda>s. map (map packages) (wh s)"],
      simp add: Let_def RepriceBatches_shape,
      rule fold_frame [where g = "\<lambda>s. map (map daysLeft) (wh s)"],
      simp add: Let_def RepriceBatches_shape)

lemma stock_inv_edit:
  assumes c: "queue_closed Q"
    and i: "list_all2 (\<lambda>q p. Q q (ClampProduct p)) (wh s) (products s)"
  shows "stock_inv Q (ClampAllProducts s)"
proof -
  have "list_all2 (\<lambda>q p. Q q (ClampProduct p)) (wh (ClampAllProducts s)) (products s)"
    by (rule inv_same_shape [OF i _ ClampAllProducts_shape])
       (rule queue_closedD(3) [OF c])
  then show ?thesis by (simp add: stock_inv_def ClampAllProducts_products list_all2_map2)
qed

lemma stock_inv_ClampAllProducts:
  assumes c: "queue_closed Q" and i: "stock_inv Q s"
  shows "stock_inv Q (ClampAllProducts s)"
proof (rule stock_inv_edit [OF c])
  show "list_all2 (\<lambda>q p. Q q (ClampProduct p)) (wh s) (products s)"
    by (rule list_all2_mono [OF i [unfolded stock_inv_def]]) (rule queue_closedD(4) [OF c])
qed

lemma stock_inv_begin:
  assumes c: "queue_closed Q" and i: "stock_inv Q s"
  shows "stock_inv Q (AdvanceDay_begin s)"
proof -
  have "wh (AdvanceDay_begin s) = wh (ClampAllProducts s)"
    "products (AdvanceDay_begin s) = products (ClampAllProducts s)"
    by (simp_all add: AdvanceDay_begin_def Let_def)
  then show ?thesis using stock_inv_ClampAllProducts [OF c i] by (simp add: stock_inv_def)
qed

lemma AdvanceDay_receive_wh:
  "wh (AdvanceDay_receive (pid, pk) s) =
     (if 0 < max 0 (min pk (capacityPackages (products s ! nat pid) - TotalPackages (wh s) pid))
      then Receive (wh s) pid
             (max 0 (min pk (capacityPackages (products s ! nat pid) - TotalPackages (wh s) pid)))
             (products s ! nat pid)
      else wh s)"
  by (simp add: AdvanceDay_receive_def Let_def)

lemma stock_inv_receive:
  assumes c: "queue_closed Q" and i: "stock_inv Q s"
  shows "stock_inv Q (AdvanceDay_receive a s)"
proof -
  obtain pid pk where a: "a = (pid, pk)" by fastforce
  define accepted where
    "accepted = max 0 (min pk (capacityPackages (products s ! nat pid) - TotalPackages (wh s) pid))"
  have "list_all2 Q (Receive (wh s) pid accepted (products s ! nat pid)) (products s)"
    by (rule inv_Receive [OF c i [unfolded stock_inv_def]]) (simp add: accepted_def)
  then show ?thesis
    using i by (simp add: stock_inv_def a AdvanceDay_receive_wh accepted_def [symmetric])
qed

lemma stock_inv_receipts:
  assumes c: "queue_closed Q" and i: "stock_inv Q s"
  shows "stock_inv Q (fold AdvanceDay_receive xs s)"
  by (rule fold_inv [where P = "stock_inv Q" and f = AdvanceDay_receive,
        OF stock_inv_receive [OF c] i])

lemma stock_inv_pipeline:
  "stock_inv Q (snd (AdvanceDay_pipeline s)) = stock_inv Q s"
  by (simp add: stock_inv_def)

lemma stock_inv_supply:
  assumes c: "queue_closed Q" and i: "stock_inv Q s"
  shows "stock_inv Q (snd (AdvanceDay_supply s))"
  using stock_inv_receipts [OF c, of "snd (AdvanceDay_pipeline s)"] i
  by (simp add: AdvanceDay_supply_def case_prod_beta stock_inv_pipeline)

lemma stock_inv_AdvanceDay_receipts:
  assumes c: "queue_closed Q" and i: "stock_inv Q s"
  shows "stock_inv Q (AdvanceDay_receipts s k)"
  using stock_inv_receipts [OF c, of "snd (AdvanceDay_pipeline (AdvanceDay_begin s))"]
    stock_inv_begin [OF c i]
  by (simp add: AdvanceDay_receipts_def case_prod_beta stock_inv_pipeline)

lemma stock_inv_decrement:
  assumes c: "queue_closed Q" and i: "stock_inv Q s"
  shows "stock_inv Q (s\<lparr>wh := DecrementShelfLife (wh s)\<rparr>)"
  using inv_DecrementShelfLife [OF c i [unfolded stock_inv_def]] by (simp add: stock_inv_def)

lemma stock_inv_writeOff:
  assumes c: "queue_closed Q" and i: "stock_inv Q s"
  shows "stock_inv Q (snd (AdvanceDay_writeOff pid (a, s)))"
proof -
  have "wh (snd (AdvanceDay_writeOff pid (a, s)))
          = fst (snd (WriteOffExpired (wh s) (int pid) (products s ! pid) (todaysStats s)))"
    by (simp add: AdvanceDay_writeOff_def Let_def split: prod.splits)
  then show ?thesis
    using inv_WriteOffExpired [OF c i [unfolded stock_inv_def]] by (simp add: stock_inv_def)
qed

lemma stock_inv_discount:
  assumes c: "queue_closed Q" and i: "stock_inv Q s"
  shows "stock_inv Q (AdvanceDay_discount pid s)"
proof -
  have "wh (AdvanceDay_discount pid s)
          = snd (ApplyDiscountIfNeeded (wh s) (int pid) (products s ! pid))"
    by (simp add: AdvanceDay_discount_def Let_def split: prod.splits)
  then show ?thesis
    using inv_ApplyDiscountIfNeeded [OF c i [unfolded stock_inv_def]] by (simp add: stock_inv_def)
qed


lemma stock_inv_shelf:
  assumes c: "queue_closed Q" and i: "stock_inv Q s"
  shows "stock_inv Q (snd (AdvanceDay_shelf s))"
proof -
  define s1 where "s1 = s\<lparr>wh := DecrementShelfLife (wh s)\<rparr>"
  define p where "p = fold AdvanceDay_writeOff [0..<nat (cfgK (cfg s1))] ([], s1)"
  have a: "stock_inv Q (snd p)"
    unfolding p_def s1_def
    by (intro fold_inv2 [where P = "stock_inv Q"] stock_inv_writeOff [OF c]
          stock_inv_decrement [OF c] i)
  have "snd (AdvanceDay_shelf s) = fold AdvanceDay_discount [0..<nat (cfgK (cfg (snd p)))] (snd p)"
    by (simp add: AdvanceDay_shelf_def Let_def case_prod_beta p_def s1_def)
  then show ?thesis
    using fold_inv [where P = "stock_inv Q" and f = AdvanceDay_discount,
        OF stock_inv_discount [OF c] a] by simp
qed

lemma stock_inv_fulfillLine:
  assumes c: "queue_closed Q" and i: "stock_inv Q s"
  shows "stock_inv Q (snd (snd (AdvanceDay_fulfillLine R oline (a, b, s))))"
proof -
  have "wh (snd (snd (AdvanceDay_fulfillLine R oline (a, b, s))))
          = fst (snd (FulfillLine (wh s) oline (products s ! nat (productId oline)) R (rng s)
                        (todaysStats s)))"
    "products (snd (snd (AdvanceDay_fulfillLine R oline (a, b, s)))) = products s"
    by (simp_all add: AdvanceDay_fulfillLine_def split: prod.splits)
  then show ?thesis
    using inv_FulfillLine [OF c i [unfolded stock_inv_def]] by (simp add: stock_inv_def)
qed

lemma stock_inv_fulfillOrder:
  assumes c: "queue_closed Q" and i: "stock_inv Q s"
  shows "stock_inv Q (snd (snd (AdvanceDay_fulfillOrder R ord (a, b, s))))"
proof -
  have "snd (snd (AdvanceDay_fulfillOrder R ord (a, b, s)))
          = snd (snd (fold (AdvanceDay_fulfillLine R) (lines ord) ([], [], s)))"
    by (simp add: AdvanceDay_fulfillOrder_def Let_def case_prod_beta)
  then show ?thesis
    using fold_inv3 [where P = "stock_inv Q" and f = "AdvanceDay_fulfillLine R",
        OF stock_inv_fulfillLine [OF c] i] by simp
qed

lemma stock_inv_fulfill:
  assumes c: "queue_closed Q" and i: "stock_inv Q s"
  shows "stock_inv Q (AdvanceDay_fulfill R s)"
proof -
  define t where "t = snd (snd (fold (AdvanceDay_fulfillOrder R) (todaysOrders s) ([], [], s)))"
  have a: "stock_inv Q t"
    unfolding t_def
    by (rule fold_inv3 [where P = "stock_inv Q" and f = "AdvanceDay_fulfillOrder R",
          OF stock_inv_fulfillOrder [OF c] i])
  have "wh (AdvanceDay_fulfill R s) = wh t" "products (AdvanceDay_fulfill R s) = products t"
    by (simp_all add: AdvanceDay_fulfill_def Let_def case_prod_beta t_def)
  then show ?thesis using a by (simp add: stock_inv_def)
qed

lemma BuildDailyAnimations_wh [simp]:
  "wh (BuildDailyAnimations R a b c d s) = wh s"
  "products (BuildDailyAnimations R a b c d s) = products s"
  by simp_all

lemma stock_inv_body:
  assumes c: "queue_closed Q" and i: "stock_inv Q s"
  shows "stock_inv Q (AdvanceDay_body R s)"
proof -
  define s3 where "s3 = snd (AdvanceDay_shelf (snd (AdvanceDay_supply (AdvanceDay_begin s))))"
  have a: "stock_inv Q s3"
    unfolding s3_def
    by (intro stock_inv_shelf [OF c] stock_inv_supply [OF c] stock_inv_begin [OF c] i)
  have b: "stock_inv Q (AdvanceDay_fulfill R (AdvanceDay_orders R s3))"
    by (rule stock_inv_fulfill [OF c]) (use a in \<open>simp add: stock_inv_def\<close>)
  have "wh (AdvanceDay_body R s) = wh (AdvanceDay_fulfill R (AdvanceDay_orders R s3))"
    "products (AdvanceDay_body R s) = products (AdvanceDay_fulfill R (AdvanceDay_orders R s3))"
    by (simp_all add: AdvanceDay_body_def Let_def case_prod_beta s3_def)
  then show ?thesis using b by (simp add: stock_inv_def)
qed

lemma stock_inv_AdvanceDay:
  assumes c: "queue_closed Q" and i: "stock_inv Q s"
  shows "stock_inv Q (AdvanceDay R s)"
  using stock_inv_body [OF c i] i by (simp add: AdvanceDay_def)


lemma Reset_product_lengths [simp]:
  "length (wh (Reset_product R i s)) = length (wh s)"
  "length (products (Reset_product R i s)) = length (products s)"
  by (simp_all add: Reset_product_def Receive_def Let_def split: prod.splits)

lemma Reset_product_other:
  "j \<noteq> i \<Longrightarrow> wh (Reset_product R i s) ! j = wh s ! j"
  by (simp add: Reset_product_def Receive_def Let_def split: prod.splits)

lemma stock_inv_Reset_product:
  assumes c: "queue_closed Q" and ok: "rng_ok R" and inv: "stock_inv Q s"
    and e: "i < length (wh s) \<Longrightarrow> wh s ! i = []"
  shows "stock_inv Q (Reset_product R i s)"
proof -
  obtain upp g1 where d1: "RandInt R (rng s) 6 24 = (upp, g1)" by fastforce
  obtain cap g2 where d2: "RandInt R g1 18 40 = (cap, g2)" by fastforce
  obtain life g3 where d3: "RandInt R g2 7 25 = (life, g3)" by fastforce
  obtain price g4 where d4: "RandFloat R g3 (f32 (8 / 10)) (f32 (55 / 10)) = (price, g4)"
    by fastforce
  obtain f g5 where d5: "RandFloat R g4 (f32 (3 / 10)) (f32 (7 / 10)) = (f, g5)" by fastforce
  define pc where "pc = ClampProduct
           \<lparr> name = (if i < length baseNames then baseNames ! i
                      else ''Tovar '' @ to_string (int i + 1)),
             unitName = ''ed.'',
             unitsPerPackage = upp,
             capacityPackages = cap,
             shelfLifeDays = life,
             discountBeforeDays = min 5 (max 2 (tdiv life 5)),
             basePricePerUnit = price,
             discountPercent = 25,
             reorderThreshold = max 3 (tdiv cap 5),
             reorderAmount = max 4 (tdiv cap 2) \<rparr>"
  define initP where
    "initP = int_of_float (round_away (fmul32 (float_of_int (capacityPackages pc)) f))"
  define ps where "ps = (products s)[i := pc]"
  have s': "Reset_product R i s
      = s\<lparr> rng := g5, products := ps, wh := Receive (wh s) (int i) initP pc \<rparr>"
    unfolding Reset_product_def ps_def
    by (simp only: d1 d2 d3 d4 d5 prod.case Let_def pc_def initP_def)
  have cb: "0 \<le> capacityPackages pc" "capacityPackages pc \<le> 5000"
    using clamp_bounds [of 0 5000 cap] by (simp_all add: pc_def ClampProduct_capacity)
  have "f32 (3 / 10) \<le> fst (uniform_real R (f32 (3 / 10)) (f32 (7 / 10)) g4)
      \<and> fst (uniform_real R (f32 (3 / 10)) (f32 (7 / 10)) g4) \<le> f32 (7 / 10)"
    using ok f32_7_10(3) unfolding rng_ok_def by blast
  then have fb: "0 \<le> f" "f \<le> f32 (7 / 10)"
    using d5 f32_7_10(2) by (simp_all add: RandFloat_def)
  have le: "initP \<le> capacityPackages pc"
    unfolding initP_def by (rule init_stock_le [OF cb fb])
  have l: "length (wh s) = length (products s)"
    using inv by (simp add: stock_inv_def list_all2_lengthD)
  show ?thesis
  proof (cases "i < length (wh s)")
    case True
    have q: "Q (wh s ! i) pc" unfolding e [OF True] pc_def by (rule queue_closedD(2) [OF c])
    have "list_all2 Q ((wh s)[i := wh s ! i]) ((products s)[i := pc])"
      by (rule list_all2_update_cong [OF inv [unfolded stock_inv_def] q])
    then have a: "list_all2 Q (wh s) ps" by (simp add: ps_def)
    have p: "ps ! i = pc" using True l by (simp add: ps_def)
    have t0: "TotalPackages (wh s) (int i) = 0" using True e by (simp add: TotalPackages_def)
    have "list_all2 Q (Receive (wh s) (int i) initP (ps ! nat (int i))) ps"
      by (rule inv_Receive [OF c a]) (simp add: p t0 le)
    then show ?thesis by (simp add: s' stock_inv_def p)
  next
    case False
    then have "Receive (wh s) (int i) initP pc = wh s" by (simp add: Receive_def)
    moreover have "ps = products s" using False l by (simp add: ps_def list_update_beyond)
    ultimately show ?thesis using inv by (simp add: s' stock_inv_def)
  qed
qed

lemma stock_inv_Reset_fold:
  assumes c: "queue_closed Q" and ok: "rng_ok R"
  shows "stock_inv Q s \<Longrightarrow> (\<forall>j < length (wh s). wh s ! j = []) \<Longrightarrow>
         stock_inv Q (fold (Reset_product R) [0..<n] s)
         \<and> length (wh (fold (Reset_product R) [0..<n] s)) = length (wh s)
         \<and> (\<forall>j. n \<le> j \<and> j < length (wh s) \<longrightarrow> wh (fold (Reset_product R) [0..<n] s) ! j = [])"
proof (induction n)
  case 0
  then show ?case by simp
next
  case (Suc n)
  define t where "t = fold (Reset_product R) [0..<n] s"
  have ih: "stock_inv Q t" "length (wh t) = length (wh s)"
    "\<forall>j. n \<le> j \<and> j < length (wh s) \<longrightarrow> wh t ! j = []"
    using Suc.IH [OF Suc.prems] by (simp_all add: t_def)
  have f: "fold (Reset_product R) [0..<Suc n] s = Reset_product R n t" by (simp add: t_def)
  have "stock_inv Q (Reset_product R n t)"
    by (rule stock_inv_Reset_product [OF c ok ih(1)]) (use ih in simp)
  moreover have "\<forall>j. Suc n \<le> j \<and> j < length (wh s) \<longrightarrow> wh (Reset_product R n t) ! j = []"
    using ih(3) by (simp add: Reset_product_other)
  ultimately show ?case unfolding f using ih(2) by simp
qed

lemma stock_inv_Reset_init:
  assumes c: "queue_closed Q"
  shows "stock_inv Q (Reset_init R cf s0)"
    and "\<forall>j < length (wh (Reset_init R cf s0)). wh (Reset_init R cf s0) ! j = []"
  using queue_closedD(1) [OF c]
  by (simp_all add: stock_inv_def Reset_init_def Let_def Warehouse_new_def list_all2_conv_all_nth)

lemma stock_inv_Reset_stocking:
  assumes c: "queue_closed Q" and ok: "rng_ok R"
  shows "stock_inv Q (Reset_stocking R cf s0 n)"
  unfolding Reset_stocking_def
  by (rule conjunct1 [OF stock_inv_Reset_fold [OF c ok stock_inv_Reset_init(1) [OF c]
        stock_inv_Reset_init(2) [OF c]]])

lemma Reset_eq_stocking:
  "Reset R cf s0 = PushLog LogReset (Reset_stocking R cf s0 (nat (cfgK (ClampConfig cf))))"
  by (simp add: Reset_def Reset_stocking_def Let_def) (simp add: Reset_init_def Let_def)

lemma stock_inv_Reset:
  assumes c: "queue_closed Q" and ok: "rng_ok R"
  shows "stock_inv Q (Reset R cf s0)"
  using stock_inv_Reset_stocking [OF c ok, of cf s0 "nat (cfgK (ClampConfig cf))"]
  by (simp add: Reset_eq_stocking stock_inv_def)


subsection \<open>Runs\<close>

lemma stock_inv_step:
  assumes c: "queue_closed Q" and ok: "rng_ok R"
    and br: "\<And>q p p'. Q q p \<Longrightarrow> E q p' \<Longrightarrow> Q q (ClampProduct p')"
    and k: "edit_keeps E h call"
    and i: "\<forall>s. h = Some s \<longrightarrow> stock_inv Q s"
  shows "\<forall>s. fst (api_step R call (h, d)) = Some s \<longrightarrow> stock_inv Q s"
proof (cases call)
  case (CallReset cf)
  then show ?thesis
    by (auto simp: ResetSimulator_def stock_inv_Reset [OF c ok] split: option.splits)
next
  case CallAdvanceDay
  then show ?thesis
    using i by (auto simp: api_AdvanceDay_def stock_inv_AdvanceDay [OF c] split: option.splits)
next
  case (CallSetRuntimeTuning op mlpo minu maxu ddb spd)
  then show ?thesis
    using i by (auto simp: SetRuntimeTuning_def stock_inv_def split: option.splits)
next
  case (CallSetProductConfigs ins)
  show ?thesis
  proof (cases h)
    case None
    then show ?thesis by (simp add: CallSetProductConfigs SetProductConfigs_def)
  next
    case (Some s)
    then have inv: "stock_inv Q s" using i by simp
    show ?thesis
    proof (cases "int (length ins) \<noteq> cfgK (cfg s)")
      case True
      then show ?thesis using inv by (simp add: CallSetProductConfigs Some SetProductConfigs_def)
    next
      case False
      then have e: "list_all2 E (wh s) ins"
        using k by (simp add: edit_keeps_def CallSetProductConfigs Some)
      have l: "length (wh s) = length ins" "length (wh s) = length (products s)"
        using list_all2_lengthD [OF e] list_all2_lengthD [OF inv [unfolded stock_inv_def]]
        by simp_all
      have "list_all2 (\<lambda>q p. Q q (ClampProduct p)) (wh s) ins"
        unfolding list_all2_conv_all_nth
      proof (intro conjI allI impI)
        show "length (wh s) = length ins" by (rule l)
        fix n assume n: "n < length (wh s)"
        show "Q (wh s ! n) (ClampProduct (ins ! n))"
          by (rule br [OF inv_nth [OF inv [unfolded stock_inv_def] n] inv_nth [OF e n]])
      qed
      then have "stock_inv Q (ClampAllProducts (s\<lparr>products := ins\<rparr>))"
        by (intro stock_inv_edit [OF c]) simp
      then show ?thesis using False by (simp add: CallSetProductConfigs Some SetProductConfigs_def)
    qed
  qed
qed

lemma stock_inv_fold:
  assumes c: "queue_closed Q" and ok: "rng_ok R"
    and br: "\<And>q p p'. Q q p \<Longrightarrow> E q p' \<Longrightarrow> Q q (ClampProduct p')"
  shows "edits_keep E R calls (h, d) \<Longrightarrow> \<forall>s. h = Some s \<longrightarrow> stock_inv Q s \<Longrightarrow>
         \<forall>s. fst (fold (api_step R) calls (h, d)) = Some s \<longrightarrow> stock_inv Q s"
proof (induction calls arbitrary: h d)
  case Nil
  then show ?case by simp
next
  case (Cons call calls)
  obtain h' d' where e: "api_step R call (h, d) = (h', d')" by fastforce
  have a: "\<forall>s. h' = Some s \<longrightarrow> stock_inv Q s"
    using stock_inv_step [OF c ok br _ Cons.prems(2), where call = call and d = d]
      Cons.prems(1) e by simp
  have b: "edits_keep E R calls (h', d')" using Cons.prems(1) e by simp
  show ?case using Cons.IH [OF b a] e by simp
qed

lemma stock_inv_run:
  assumes c: "queue_closed Q" and ok: "rng_ok R"
    and br: "\<And>q p p'. Q q p \<Longrightarrow> E q p' \<Longrightarrow> Q q (ClampProduct p')"
    and k: "edits_keep E R calls (CreateSimulator R cf, [])"
    and s: "fst (api_run R cf calls) = Some s"
  shows "stock_inv Q s"
proof -
  have "\<forall>s. CreateSimulator R cf = Some s \<longrightarrow> stock_inv Q s"
    by (simp add: CreateSimulator_def SimulatorImpl_new_def stock_inv_Reset [OF c ok])
  from stock_inv_fold [OF c ok br k this] s show ?thesis by (simp add: api_run_def)
qed


subsection \<open>The age order and the capacity bound\<close>


lemma foldl_packages:
  "foldl (\<lambda>s b. s + packages b) a q = a + sum_list (map packages q)"
  by (induction q arbitrary: a) simp_all

lemma positive_packages:
  "list_all (\<lambda>b. 0 < packages b) q \<longleftrightarrow> list_all (\<lambda>k. 0 < k) (map packages q)"
  by (simp add: list_all_iff)

lemma sum_list_positive: "list_all (\<lambda>k. 0 < k) ks \<Longrightarrow> 0 \<le> sum_list ks" for ks :: "int list"
  by (induction ks) simp_all


lemma closed_capacity_ok: "queue_closed capacity_ok"
  unfolding queue_closed_def
proof (intro conjI allI impI)
  show "capacity_ok [] ProductConfig0"
    by (simp add: capacity_ok_def ProductConfig0_def)
  show "capacity_ok [] (ClampProduct p)" for p
    using clamp_bounds [of 0 5000 "capacityPackages p"]
    by (simp add: capacity_ok_def ClampProduct_capacity)
  show "capacity_ok q' p" if "capacity_ok q p" "map packages q' = map packages q"
    "map daysLeft q' = map daysLeft q" for q q' p
    using that by (simp add: capacity_ok_def foldl_packages positive_packages)
  show "capacity_ok q (ClampProduct p)" if "capacity_ok q p" for q p
    using that sum_list_positive [of "map packages q"]
    by (simp add: capacity_ok_def ClampProduct_capacity clamp_def foldl_packages
        positive_packages)
  show "capacity_ok (q @ [\<lparr> packages = pk, daysLeft = shelfLifeDays p, discounted = d,
                        unitPrice = u \<rparr>]) p"
    if "capacity_ok q p" "0 < pk"
      "foldl (\<lambda>s b. s + packages b) 0 q + pk \<le> capacityPackages p" for q p pk d u
    using that by (simp add: capacity_ok_def)
  show "capacity_ok (map (\<lambda>b. b\<lparr>daysLeft := daysLeft b - 1\<rparr>) q) p" if "capacity_ok q p" for q p
    using that by (simp add: capacity_ok_def foldl_packages list_all_iff comp_def)
  show "capacity_ok q p" if "capacity_ok (pre @ q) p" for pre q p
    using that sum_list_positive [of "map packages pre"]
    by (simp add: capacity_ok_def foldl_packages positive_packages)
  show "capacity_ok (b\<lparr>packages := k\<rparr> # q) p"
    if "capacity_ok (b # q) p" "0 < k" "k \<le> packages b" for b q p k
    using that by (simp add: capacity_ok_def foldl_packages)
qed


lemma capacity_ok_edit:
  "capacity_ok q p \<Longrightarrow> capacity_kept q p' \<Longrightarrow> capacity_ok q (ClampProduct p')"
  using clamp_bounds [of 0 5000 "capacityPackages p'"]
  by (simp add: capacity_ok_def capacity_kept_def ClampProduct_capacity)


lemma within_capacity_run:
  assumes "rng_ok R" and "capacities_kept R calls (CreateSimulator R c, [])"
    and "fst (api_run R c calls) = Some s"
  shows "within_capacity s"
  unfolding within_capacity_def
  by (rule stock_inv_run [OF closed_capacity_ok assms(1) capacity_ok_edit
        assms(2) [unfolded capacities_kept_def] assms(3)])


lemma within_capacity_total:
  assumes a: "within_capacity s" and p: "0 \<le> pid" "pid < int (length (products s))"
  shows "TotalPackages (wh s) pid \<le> capacityPackages (products s ! nat pid)"
proof -
  have l: "length (wh s) = length (products s)"
    using a by (simp add: within_capacity_def stock_inv_def list_all2_lengthD)
  then have n: "nat pid < length (wh s)" using p by linarith
  have "capacity_ok (wh s ! nat pid) (products s ! nat pid)"
    by (rule inv_nth [OF a [unfolded within_capacity_def stock_inv_def] n])
  then show ?thesis using p l by (simp add: capacity_ok_def TotalPackages_def)
qed


section \<open>Capacity and expiry in reachable states\<close>

lemma Create_demo: "CreateSimulator demo_rng SimConfig0 = Some demo_sim"
  by (simp add: CreateSimulator_def demo_sim_def ClampConfig_SimConfig0)

lemma demo_sim_wh:
  "wh demo_sim = replicate 12 [\<lparr> packages = 5, daysLeft = 7, discounted = False,
                                  unitPrice = 13421773 / 16777216 \<rparr>]"
  by code_simp

lemma demo_sim_K: "cfgK (cfg demo_sim) = 12"
  by (simp add: demo_sim_cfg SimConfig0_def)

lemma AdvanceDay_products_length [simp]:
  "length (products (AdvanceDay R s)) = length (products s)"
  by (simp add: AdvanceDay_def)

lemma AdvanceDay_receipts_products:
  "products (AdvanceDay_receipts s k) = map ClampProduct (products s)"
  by (simp add: AdvanceDay_receipts_def case_prod_beta fold_frame [where g = products])


lemma Reset_stocking_length:
  "length (products (Reset_stocking R c s0 n)) = nat (cfgK (ClampConfig c))"
proof -
  have "length (products (fold (Reset_product R) [0..<n] s)) = length (products s)" for s
    by (rule fold_frame [where g = "\<lambda>s. length (products s)"]) simp
  then show ?thesis by (simp add: Reset_stocking_def Reset_init_def Let_def)
qed

lemma TotalPackages_shape:
  assumes e: "map (map packages) iv' = map (map packages) iv"
  shows "TotalPackages iv' pid = TotalPackages iv pid"
proof -
  have l: "length iv' = length iv" using arg_cong [OF e, of length] by simp
  show ?thesis
  proof (cases "pid < 0 \<or> pid \<ge> int (length iv)")
    case True
    then show ?thesis using l by (auto simp: TotalPackages_def)
  next
    case False
    then have n: "nat pid < length iv" by linarith
    have "map (map packages) iv' ! nat pid = map (map packages) iv ! nat pid" by (simp only: e)
    then have "map packages (iv' ! nat pid) = map packages (iv ! nat pid)" using n l by simp
    then show ?thesis using False l by (simp add: TotalPackages_def foldl_packages)
  qed
qed

lemma TotalPackages_Receive_other:
  "pid' \<noteq> pid \<Longrightarrow> TotalPackages (Receive iv pid pk pc) pid' = TotalPackages iv pid'"
proof -
  assume d: "pid' \<noteq> pid"
  have l: "length (Receive iv pid pk pc) = length iv" by (simp add: Receive_def Let_def)
  have "Receive iv pid pk pc ! nat pid' = iv ! nat pid'" if "0 \<le> pid'" "0 \<le> pid"
    using d that by (simp add: Receive_def Let_def)
  moreover have "Receive iv pid pk pc = iv" if "pid < 0"
    using that by (simp add: Receive_def)
  ultimately show ?thesis
    unfolding TotalPackages_def l by (cases "pid < 0") auto
qed

text \<open>
  C3, amended. Let no call of \<open>SetProductConfigs\<close> that is accepted give a product a
  (normalised) capacity below the packages it holds, and let the generator respect the
  bounds of its distributions. Then in every reachable state, and in the state of
  \<open>AdvanceDay\<close> after each of the receipts of the day, the packages in stock of every
  product do not exceed its capacity. The same holds, whatever the calls were, after
  each pass of the product loop of \<open>Reset\<close>, which receives the initial stock. Whatever
  the state, the receipt of an arrival leaves the product received within its capacity,
  and an arrival of which nothing is accepted leaves the warehouse as it was.
\<close>

theorem stock_within_capacity:
  "(rng_ok R \<and> capacities_kept R calls (CreateSimulator R c, [])
      \<and> fst (api_run R c calls) = Some s \<and> 0 \<le> pid \<and> pid < int (length (products s)) \<longrightarrow>
        TotalPackages (wh s) pid \<le> capacityPackages (products s ! nat pid)
      \<and> TotalPackages (wh (AdvanceDay_receipts s k)) pid
          \<le> capacityPackages (products (AdvanceDay_receipts s k) ! nat pid))
   \<and> (rng_ok R \<and> 0 \<le> pid \<and> pid < cfgK (ClampConfig c') \<longrightarrow>
        TotalPackages (wh (Reset_stocking R c' s0 n)) pid
          \<le> capacityPackages (products (Reset_stocking R c' s0 n) ! nat pid))
   \<and> (let accepted = max 0 (min pk (capacityPackages (products t ! nat p)
                                       - TotalPackages (wh t) p));
           t' = AdvanceDay_receive (p, pk) t
       in (0 < accepted \<longrightarrow>
             wh t' = Receive (wh t) p accepted (products t ! nat p)
             \<and> TotalPackages (wh t') p \<le> capacityPackages (products t' ! nat p))
        \<and> (accepted \<le> 0 \<longrightarrow> wh t' = wh t))"
proof -
  have A: "rng_ok R \<and> capacities_kept R calls (CreateSimulator R c, [])
      \<and> fst (api_run R c calls) = Some s \<and> 0 \<le> pid \<and> pid < int (length (products s)) \<longrightarrow>
        TotalPackages (wh s) pid \<le> capacityPackages (products s ! nat pid)
      \<and> TotalPackages (wh (AdvanceDay_receipts s k)) pid
          \<le> capacityPackages (products (AdvanceDay_receipts s k) ! nat pid)"
  proof
    assume h: "rng_ok R \<and> capacities_kept R calls (CreateSimulator R c, [])
      \<and> fst (api_run R c calls) = Some s \<and> 0 \<le> pid \<and> pid < int (length (products s))"
    then have w: "within_capacity s" using within_capacity_run by blast
    have w': "within_capacity (AdvanceDay_receipts s k)"
      using stock_inv_AdvanceDay_receipts [OF closed_capacity_ok] w
      by (simp add: within_capacity_def)
    have "TotalPackages (wh s) pid \<le> capacityPackages (products s ! nat pid)"
      using within_capacity_total [OF w] h by blast
    moreover have "TotalPackages (wh (AdvanceDay_receipts s k)) pid
          \<le> capacityPackages (products (AdvanceDay_receipts s k) ! nat pid)"
      using h by (intro within_capacity_total [OF w']) (simp_all add: AdvanceDay_receipts_products)
    ultimately show "TotalPackages (wh s) pid \<le> capacityPackages (products s ! nat pid)
      \<and> TotalPackages (wh (AdvanceDay_receipts s k)) pid
          \<le> capacityPackages (products (AdvanceDay_receipts s k) ! nat pid)" by simp
  qed
  have B: "rng_ok R \<and> 0 \<le> pid \<and> pid < cfgK (ClampConfig c') \<longrightarrow>
        TotalPackages (wh (Reset_stocking R c' s0 n)) pid
          \<le> capacityPackages (products (Reset_stocking R c' s0 n) ! nat pid)"
  proof
    assume h: "rng_ok R \<and> 0 \<le> pid \<and> pid < cfgK (ClampConfig c')"
    then have ok: "rng_ok R" by simp
    have "within_capacity (Reset_stocking R c' s0 n)"
      unfolding within_capacity_def by (rule stock_inv_Reset_stocking [OF closed_capacity_ok ok])
    then show "TotalPackages (wh (Reset_stocking R c' s0 n)) pid
          \<le> capacityPackages (products (Reset_stocking R c' s0 n) ! nat pid)"
      using h by (intro within_capacity_total) (simp_all add: Reset_stocking_length)
  qed
  define cur where "cur = TotalPackages (wh t) p"
  define cap where "cap = capacityPackages (products t ! nat p)"
  have b: "TotalPackages (Receive (wh t) p (max 0 (min pk (cap - cur))) (products t ! nat p)) p
             \<le> cap" if "0 < max 0 (min pk (cap - cur))"
  proof (cases "pid_ok p (wh t)")
    case True
    with that show ?thesis by (simp add: TotalPackages_Receive cur_def [symmetric])
  next
    case False
    then have z: "TotalPackages (wh t) p = 0" by (auto simp: TotalPackages_def pid_ok_def)
    then have "cur = 0" by (simp add: cur_def)
    with that have "0 < cap" by (auto simp: max_def min_def split: if_splits)
    with False z show ?thesis by (simp add: TotalPackages_Receive)
  qed
  have C: "let accepted = max 0 (min pk (capacityPackages (products t ! nat p)
                                       - TotalPackages (wh t) p));
           t' = AdvanceDay_receive (p, pk) t
       in (0 < accepted \<longrightarrow>
             wh t' = Receive (wh t) p accepted (products t ! nat p)
             \<and> TotalPackages (wh t') p \<le> capacityPackages (products t' ! nat p))
        \<and> (accepted \<le> 0 \<longrightarrow> wh t' = wh t)"
    using b
    by (simp add: Let_def AdvanceDay_receive_wh cur_def [symmetric] cap_def [symmetric])
  show ?thesis by (intro conjI) (rule A, rule B, rule C)
qed

lemma raised_run: "fst (api_run demo_rng SimConfig0 raised_calls) = Some raised_sim"
  by (simp add: api_run_def raised_calls_def Create_demo SetProductConfigs_def demo_sim_K
      raised_products_def [symmetric] api_AdvanceDay_def raised_sim_def)
     (simp add: raised_products_def)

lemma raised_products_length:
  "length (products raised_sim) = 12"
  by (simp add: raised_sim_def ClampAllProducts_products raised_products_def)

theorem stock_within_capacity_witness:
  "rng_ok demo_rng
   \<and> capacities_kept demo_rng raised_calls (CreateSimulator demo_rng SimConfig0, [])
   \<and> fst (api_run demo_rng SimConfig0 raised_calls) = Some raised_sim
   \<and> (0::int) < int (length (products raised_sim))
   \<and> TotalPackages (wh raised_sim) 0 \<le> capacityPackages (products raised_sim ! nat 0)
   \<and> TotalPackages (wh (AdvanceDay_receipts raised_sim 1)) 0
        \<le> capacityPackages (products (AdvanceDay_receipts raised_sim 1) ! nat 0)
   \<and> 0 < cfgK (ClampConfig SimConfig0)
   \<and> TotalPackages (wh (Reset_stocking demo_rng SimConfig0 demo_sim 12)) 0
        \<le> capacityPackages (products (Reset_stocking demo_rng SimConfig0 demo_sim 12) ! nat 0)
   \<and> 0 < max 0 (min 30 (capacityPackages (products (reorder_sim 4) ! nat 0)
                          - TotalPackages (wh (reorder_sim 4)) 0))
   \<and> TotalPackages (wh (AdvanceDay_receive (0, 30) (reorder_sim 4))) 0
        \<le> capacityPackages (products (AdvanceDay_receive (0, 30) (reorder_sim 4)) ! nat 0)"
proof -
  have ok: "rng_ok demo_rng" by (simp add: demo_rng_def rng_ok_replay)
  have e: "list_all2 capacity_kept (wh demo_sim) raised_products"
    by (simp add: demo_sim_wh raised_products_def list_all2_conv_all_nth capacity_kept_def
        ClampProduct_capacity clamp_def)
  have k: "capacities_kept demo_rng raised_calls (CreateSimulator demo_rng SimConfig0, [])"
    using e by (simp add: capacities_kept_def raised_calls_def edit_keeps_def Create_demo)
  have l: "(0::int) < int (length (products raised_sim))" by (simp add: raised_products_length)
  have c: "0 < cfgK (ClampConfig SimConfig0)"
    by (simp add: ClampConfig_SimConfig0) (simp add: SimConfig0_def)
  have h: "0 < max 0 (min 30 (capacityPackages (products (reorder_sim 4) ! nat 0)
                          - TotalPackages (wh (reorder_sim 4)) 0))"
    by (simp add: reorder_sim_eval ProductConfig0_def)
  note t = stock_within_capacity [where R = demo_rng and calls = raised_calls and c = SimConfig0
      and s = raised_sim and pid = 0 and k = 1 and c' = SimConfig0 and ?s0.0 = demo_sim
      and n = 12 and t = "reorder_sim 4" and p = 0 and pk = 30, unfolded Let_def]
  have z: "(0::int) \<le> 0" by simp
  show ?thesis using ok k raised_run l c h z t by blast
qed

text \<open>
  C3, as stated, fails once a caller has lowered the capacity of a product below the
  packages it holds: \<open>SetProductConfigs\<close> leaves the stock alone, and a later receipt for
  another product is followed by a state in which the edited product exceeds its
  capacity. A simulator is created with the default configuration (every product holds
  5 packages), the caller sets the capacity of product 0 to 2 packages, and an arrival of
  12 packages of product 1 is received (lines 540 to 550; it is the arrival that the
  reorder of the first day of \<open>capacity_edit_calls\<close> schedules for the second day): the
  receipt is performed, and product 0 holds 5 packages with a capacity of 2.
\<close>

theorem stock_within_capacity_counterexample:
  "fst (api_run demo_rng SimConfig0 [CallSetProductConfigs capacity_edit_products])
     = Some capacity_edit_sim
   \<and> TotalPackages (wh capacity_edit_sim) 1 = 5
   \<and> TotalPackages (wh (AdvanceDay_receive (1, 12) capacity_edit_sim)) 1 = 17
   \<and> TotalPackages (wh (AdvanceDay_receive (1, 12) capacity_edit_sim)) 0 = 5
   \<and> capacityPackages (products (AdvanceDay_receive (1, 12) capacity_edit_sim) ! 0) = 2"
proof -
  have r: "fst (api_run demo_rng SimConfig0 [CallSetProductConfigs capacity_edit_products])
     = Some capacity_edit_sim"
    by (simp add: api_run_def Create_demo SetProductConfigs_def demo_sim_K
        capacity_edit_sim_def) (simp add: capacity_edit_products_def)
  have t: "TotalPackages (wh capacity_edit_sim) pid = TotalPackages (wh demo_sim) pid" for pid
    unfolding capacity_edit_sim_def
    by (rule TotalPackages_shape) (simp add: ClampAllProducts_shape)
  have t0: "TotalPackages (wh capacity_edit_sim) 0 = 5" "TotalPackages (wh capacity_edit_sim) 1 = 5"
    unfolding t by (simp_all add: demo_sim_wh TotalPackages_def)
  have p: "capacityPackages (products capacity_edit_sim ! 0) = 2"
    "capacityPackages (products capacity_edit_sim ! Suc 0) = 20"
    by (simp_all add: capacity_edit_sim_def ClampAllProducts_products capacity_edit_products_def
        ClampProduct_capacity clamp_def ProductConfig0_def)
  have l: "pid_ok 1 (wh capacity_edit_sim)"
    using arg_cong [OF ClampAllProducts_shape(1) [of "demo_sim\<lparr>products := capacity_edit_products\<rparr>"],
        of length]
    by (simp add: pid_ok_def capacity_edit_sim_def demo_sim_wh)
  have w: "wh (AdvanceDay_receive (1, 12) capacity_edit_sim)
             = Receive (wh capacity_edit_sim) 1 12 (products capacity_edit_sim ! nat 1)"
    by (simp add: AdvanceDay_receive_wh t0 p)
  show ?thesis
    using r t0 p l by (simp add: w TotalPackages_Receive TotalPackages_Receive_other)
qed

lemma capacity_edit_excluded:
  "\<not> capacities_kept demo_rng capacity_edit_calls (CreateSimulator demo_rng SimConfig0, [])"
proof -
  have "\<not> list_all2 capacity_kept
           (replicate 12 [\<lparr> packages = 5, daysLeft = 7, discounted = False,
                                unitPrice = 13421773 / 16777216 \<rparr>]) capacity_edit_products"
    by code_simp
  moreover have "int (length capacity_edit_products) = 12"
    by (simp add: capacity_edit_products_def)
  ultimately show ?thesis
    by (simp add: capacities_kept_def capacity_edit_calls_def edit_keeps_def Create_demo
        demo_sim_K demo_sim_wh)
qed



lemma shelf_edit_excluded:
  "\<not> shelf_lives_kept demo_rng shelf_edit_calls (CreateSimulator demo_rng SimConfig0, [])"
proof -
  have "\<not> list_all2 shelf_life_kept
           (replicate 12 [\<lparr> packages = 5, daysLeft = 7, discounted = False,
                                unitPrice = 13421773 / 16777216 \<rparr>]) shelf_edit_products"
    by code_simp
  moreover have "int (length shelf_edit_products) = 12"
    by (simp add: shelf_edit_products_def)
  ultimately show ?thesis
    by (simp add: shelf_lives_kept_def shelf_edit_calls_def edit_keeps_def Create_demo
        demo_sim_K demo_sim_wh)
qed

end
